theory Spec2Isabelle
  imports Main "HOL-Library.AList" "HOL-Library.Multiset"
begin

section \<open>Python strings and integers used by the chain parser\<close>

text \<open>
  A line is a list of characters, each the code point (below 256) of a character of the
  Python 3 string. The whitespace of \<^verbatim>\<open>str.split()\<close> and \<^verbatim>\<open>str.rstrip()\<close> in that
  range is: tab, line feed, vertical tab, form feed, carriage return, the four separators
  0x1C..0x1F, the space, NEL (0x85) and the no-break space (0xA0).
\<close>

datatype py_error = IndexError | ValueError | UnboundLocalError

definition py_isspace :: "char \<Rightarrow> bool" where
  "py_isspace c \<longleftrightarrow>
     c \<in> set [CHR 0x09, CHR 0x0A, CHR 0x0B, CHR 0x0C, CHR 0x0D,
               CHR 0x1C, CHR 0x1D, CHR 0x1E, CHR 0x1F, CHR 0x20, CHR 0x85, CHR 0xA0]"

definition py_rstrip :: "string \<Rightarrow> string" where
  "py_rstrip s = rev (dropWhile py_isspace (rev s))"

text \<open>\<^verbatim>\<open>line.split()\<close>: the maximal runs of non-whitespace characters, in order.\<close>

function py_split :: "string \<Rightarrow> string list" where
  "py_split s =
     (case dropWhile py_isspace s of
        [] \<Rightarrow> []
      | c # cs \<Rightarrow> takeWhile (\<lambda>x. \<not> py_isspace x) (c # cs)
                 # py_split (dropWhile (\<lambda>x. \<not> py_isspace x) (c # cs)))"
  by pat_completeness auto
termination
proof (relation "measure length")
  show "wf (measure length)" by simp
next
  fix s :: string and c cs
  assume a: "dropWhile py_isspace s = c # cs"
  then have "\<not> py_isspace c"
    using hd_dropWhile [of py_isspace s] by auto
  then have "length (dropWhile (\<lambda>x. \<not> py_isspace x) (c # cs)) \<le> length cs"
    by (simp add: length_dropWhile_le)
  moreover have "length (c # cs) \<le> length s"
    using a length_dropWhile_le [of py_isspace s] by simp
  ultimately show "(dropWhile (\<lambda>x. \<not> py_isspace x) (c # cs), s) \<in> measure length"
    by simp
qed

declare py_split.simps [simp del]

definition startswith :: "string \<Rightarrow> string \<Rightarrow> bool" where
  "startswith s p \<longleftrightarrow> take (length p) s = p"

text \<open>
  \<^verbatim>\<open>int(s)\<close> for a string, \<open>None\<close> being Python's ValueError. The whitespace dropped on
  both sides is that of \<^verbatim>\<open>int\<close>, which does not include 0x1C..0x1F; one sign is allowed,
  then decimal digits, with single underscores between digits. A literal of more than
  4300 digits (the interpreter's default \<^verbatim>\<open>sys.int_max_str_digits\<close>; signs and underscores
  are not counted, leading zeros are) is refused.
\<close>

definition int_isspace :: "char \<Rightarrow> bool" where
  "int_isspace c \<longleftrightarrow>
     c \<in> set [CHR 0x09, CHR 0x0A, CHR 0x0B, CHR 0x0C, CHR 0x0D, CHR 0x20, CHR 0x85, CHR 0xA0]"

definition int_strip :: "string \<Rightarrow> string" where
  "int_strip s = dropWhile int_isspace (rev (dropWhile int_isspace (rev s)))"

definition max_str_digits :: int where
  "max_str_digits = 4300"

definition digit :: "char \<Rightarrow> nat option" where
  "digit c = map_of (zip ''0123456789'' [0..<10]) c"

fun int_digits :: "bool \<Rightarrow> nat \<Rightarrow> string \<Rightarrow> nat option" where
  "int_digits prev acc [] = (if prev then Some acc else None)"
| "int_digits prev acc (c # cs) =
     (case digit c of
        Some d \<Rightarrow> int_digits True (10 * acc + d) cs
      | None \<Rightarrow> if c = CHR ''_'' \<and> prev then int_digits False acc cs else None)"

definition py_int :: "string \<Rightarrow> int option" where
  "py_int s =
     (case int_strip s of
        [] \<Rightarrow> None
      | c # cs \<Rightarrow>
          let ds = (if c = CHR ''-'' \<or> c = CHR ''+'' then cs else c # cs)
          in if max_str_digits < int (length (filter (\<lambda>x. digit x \<noteq> None) ds)) then None
             else map_option (\<lambda>n. if c = CHR ''-'' then - int n else int n)
                    (int_digits False 0 ds))"

text \<open>
  A value that is a string or already an integer, as \<^verbatim>\<open>sz\<close>, \<^verbatim>\<open>n1\<close> and \<^verbatim>\<open>n2\<close> are in the
  parser; \<open>int_of\<close> is \<^verbatim>\<open>int(x)\<close> on it.
\<close>

datatype py_val = PyStr string | PyInt int

fun int_of :: "py_val \<Rightarrow> int option" where
  "int_of (PyStr s) = py_int s"
| "int_of (PyInt n) = Some n"

section \<open>Data model\<close>

record GapLessBlock =
  s1 :: int
  e1 :: int
  s2 :: int
  e2 :: int

text \<open>\<^verbatim>\<open>__lt__\<close> compares a number to \<open>e1\<close>, \<^verbatim>\<open>__gt__\<close> compares it to \<open>e2\<close>.\<close>

definition block_lt :: "GapLessBlock \<Rightarrow> int \<Rightarrow> bool" where
  "block_lt b other \<longleftrightarrow> e1 b < other"

definition block_gt :: "GapLessBlock \<Rightarrow> int \<Rightarrow> bool" where
  "block_gt b other \<longleftrightarrow> e2 b > other"

record SeqPair =
  seqname1 :: string
  seqname2 :: string
  strand1 :: string
  strand2 :: string
  blocks :: "GapLessBlock list"

text \<open>
  The index with the objects it reaches. \<open>seqnames\<close> is the dictionary, in insertion
  order, from a sequence name to the address of a set object; \<open>set_heap\<close> holds the set
  objects (address = position), each the identifiers of its SeqPair members without
  duplicates; \<open>pair_heap\<close> holds the SeqPair objects (identifier = position). Two names
  with the same address share one set object.
\<close>

record ChainIndex =
  seqnames :: "(string \<times> nat) list"
  set_heap :: "nat list list"
  pair_heap :: "SeqPair list"

definition empty_index :: ChainIndex where
  "empty_index = \<lparr>seqnames = [], set_heap = [], pair_heap = []\<rparr>"

text \<open>
  \<^verbatim>\<open>self.seqnames[name]\<close> on a \<^verbatim>\<open>defaultdict(set)\<close>: a missing name gets a fresh empty
  set, stored under the name, before it is returned.
\<close>

definition getitem :: "ChainIndex \<Rightarrow> string \<Rightarrow> nat \<times> ChainIndex" where
  "getitem idx name =
     (case map_of (seqnames idx) name of
        Some a \<Rightarrow> (a, idx)
      | None \<Rightarrow> (length (set_heap idx),
                 idx\<lparr>seqnames := seqnames idx @ [(name, length (set_heap idx))],
                     set_heap := set_heap idx @ [[]]\<rparr>))"

definition set_add :: "nat \<Rightarrow> nat list \<Rightarrow> nat list" where
  "set_add p ps = (if p \<in> set ps then ps else ps @ [p])"

definition append_block :: "ChainIndex \<Rightarrow> nat \<Rightarrow> GapLessBlock \<Rightarrow> ChainIndex" where
  "append_block idx pid b =
     idx\<lparr>pair_heap := (pair_heap idx)
            [pid := (pair_heap idx ! pid)\<lparr>blocks := blocks (pair_heap idx ! pid) @ [b]\<rparr>]\<rparr>"

section \<open>Building the index\<close>

text \<open>
  The loop's local variables: \<open>cur = None\<close> before the first header, when \<^verbatim>\<open>pair\<close> is
  unbound and \<^verbatim>\<open>s1\<close>, \<^verbatim>\<open>s2\<close> are NaN; afterwards the current pair's identifier and the
  two start positions.
\<close>

record build_state =
  cidx :: ChainIndex
  cur :: "(nat \<times> int \<times> int) option"

text \<open>
  A header line. The exceptions come in the order of the source: the four tokens of the
  SeqPair (IndexError below ten tokens), then \<^verbatim>\<open>int(items[5])\<close>, then \<^verbatim>\<open>items[10]\<close> and
  its \<^verbatim>\<open>int\<close>. The new pair is added to the set of \<^verbatim>\<open>items[2]\<close>, and \<^verbatim>\<open>items[7]\<close> is bound
  to that same set object, whatever it was bound to before.
\<close>

definition chain_header :: "build_state \<Rightarrow> string \<Rightarrow> py_error + build_state" where
  "chain_header st line =
     (let items = py_split line in
      if length items < 10 then Inl IndexError
      else
        let pair = \<lparr>seqname1 = items ! 2, seqname2 = items ! 7,
                    strand1 = items ! 4, strand2 = items ! 9, blocks = []\<rparr>;
            pid = length (pair_heap (cidx st));
            idx1 = (cidx st)\<lparr>pair_heap := pair_heap (cidx st) @ [pair]\<rparr>;
            (a, idx2) = getitem idx1 (items ! 2);
            idx3 = idx2\<lparr>set_heap := (set_heap idx2)[a := set_add pid (set_heap idx2 ! a)]\<rparr>;
            idx4 = idx3\<lparr>seqnames := AList.update (items ! 7) a (seqnames idx3)\<rparr>
        in case py_int (items ! 5) of
             None \<Rightarrow> Inl ValueError
           | Some v1 \<Rightarrow>
               if length items < 11 then Inl IndexError
               else (case py_int (items ! 10) of
                       None \<Rightarrow> Inl ValueError
                     | Some v2 \<Rightarrow> Inr \<lparr>cidx = idx4, cur = Some (pid, v1, v2)\<rparr>))"

text \<open>
  A body line. Three tokens are kept as strings; any other number of tokens makes the
  unpacking raise ValueError, which the source catches to read the whole line as one
  integer, with both gaps 0. The block is appended before the gaps are converted, and
  \<^verbatim>\<open>pair.append\<close> before any header raises UnboundLocalError.
\<close>

definition body_fields :: "string \<Rightarrow> py_error + (py_val \<times> py_val \<times> py_val)" where
  "body_fields line =
     (case py_split line of
        [sz, n1, n2] \<Rightarrow> Inr (PyStr sz, PyStr n1, PyStr n2)
      | _ \<Rightarrow> (case py_int (py_rstrip line) of
                None \<Rightarrow> Inl ValueError
              | Some z \<Rightarrow> Inr (PyInt z, PyInt 0, PyInt 0)))"

definition body_line :: "build_state \<Rightarrow> string \<Rightarrow> py_error + build_state" where
  "body_line st line =
     (case body_fields line of
        Inl e \<Rightarrow> Inl e
      | Inr (sz, n1, n2) \<Rightarrow>
          (case int_of sz of
             None \<Rightarrow> Inl ValueError
           | Some z \<Rightarrow>
               (case cur st of
                  None \<Rightarrow> Inl UnboundLocalError
                | Some (pid, c1, c2) \<Rightarrow>
                    let b = \<lparr>s1 = c1, e1 = c1 + z, s2 = c2, e2 = c2 + z\<rparr>;
                        idx' = append_block (cidx st) pid b
                    in (case int_of n1 of
                          None \<Rightarrow> Inl ValueError
                        | Some g1 \<Rightarrow>
                            (case int_of n2 of
                               None \<Rightarrow> Inl ValueError
                             | Some g2 \<Rightarrow>
                                 Inr \<lparr>cidx = idx',
                                      cur = Some (pid, e1 b + g1 + 1, e2 b + g2 + 1)\<rparr>)))))"

text \<open>
  The loop over the lines. \<^verbatim>\<open>line[0]\<close> raises IndexError on an empty string; a line that
  starts with \<open>#\<close> or holds whitespace only is skipped.
\<close>

definition skipped :: "string \<Rightarrow> bool" where
  "skipped line \<longleftrightarrow> hd line = CHR ''#'' \<or> py_rstrip line = []"

fun build_loop :: "build_state \<Rightarrow> string list \<Rightarrow> py_error + build_state" where
  "build_loop st [] = Inr st"
| "build_loop st (line # f) =
     (if line = [] then Inl IndexError
      else if skipped line then build_loop st f
      else if startswith line ''chain'' then
        (case chain_header st line of Inl e \<Rightarrow> Inl e | Inr st' \<Rightarrow> build_loop st' f)
      else
        (case body_line st line of Inl e \<Rightarrow> Inl e | Inr st' \<Rightarrow> build_loop st' f))"

definition construct_from_chain_file :: "string list \<Rightarrow> py_error + ChainIndex" where
  "construct_from_chain_file f =
     (case build_loop \<lparr>cidx = empty_index, cur = None\<rparr> f of
        Inl e \<Rightarrow> Inl e
      | Inr st \<Rightarrow> Inr (cidx st))"

section \<open>bisect and liftover\<close>

text \<open>
  \<^verbatim>\<open>bisect_left(a, x)\<close> tests \<^verbatim>\<open>a[mid] < x\<close>, the block's \<^verbatim>\<open>__lt__\<close>;
  \<^verbatim>\<open>bisect_right(a, x)\<close> tests \<^verbatim>\<open>x < a[mid]\<close>, which an integer hands over to the
  block's \<^verbatim>\<open>__gt__\<close>.
\<close>

function bisect_left_loop :: "GapLessBlock list \<Rightarrow> int \<Rightarrow> nat \<Rightarrow> nat \<Rightarrow> nat" where
  "bisect_left_loop a x lo hi =
     (if lo < hi then
        (if block_lt (a ! ((lo + hi) div 2)) x
         then bisect_left_loop a x ((lo + hi) div 2 + 1) hi
         else bisect_left_loop a x lo ((lo + hi) div 2))
      else lo)"
  by pat_completeness auto
termination
  by (relation "measure (\<lambda>(a, x, lo, hi). hi - lo)") auto

declare bisect_left_loop.simps [simp del]

definition bisect_left :: "GapLessBlock list \<Rightarrow> int \<Rightarrow> nat" where
  "bisect_left a x = bisect_left_loop a x 0 (length a)"

function bisect_right_loop :: "GapLessBlock list \<Rightarrow> int \<Rightarrow> nat \<Rightarrow> nat \<Rightarrow> nat" where
  "bisect_right_loop a x lo hi =
     (if lo < hi then
        (if block_gt (a ! ((lo + hi) div 2)) x
         then bisect_right_loop a x lo ((lo + hi) div 2)
         else bisect_right_loop a x ((lo + hi) div 2 + 1) hi)
      else lo)"
  by pat_completeness auto
termination
  by (relation "measure (\<lambda>(a, x, lo, hi). hi - lo)") auto

declare bisect_right_loop.simps [simp del]

definition bisect_right :: "GapLessBlock list \<Rightarrow> int \<Rightarrow> nat" where
  "bisect_right a x = bisect_right_loop a x 0 (length a)"

text \<open>The body of the loop of \<^verbatim>\<open>liftover\<close>, over the candidate pairs in iteration order.\<close>

fun liftover_pairs :: "SeqPair list \<Rightarrow> string \<Rightarrow> int \<Rightarrow> py_error + (string \<times> int) option" where
  "liftover_pairs [] seqname pos = Inr None"
| "liftover_pairs (pair # rest) seqname pos =
     (if seqname = seqname1 pair then
        (let i = bisect_left (blocks pair) pos in
         if i \<ge> length (blocks pair) then Inl IndexError
         else
           let block = blocks pair ! i in
           if s1 block \<le> pos \<and> pos \<le> e1 block then
             (if strand1 pair = strand2 pair
              then Inr (Some (seqname2 pair, s2 block + (pos - s1 block)))
              else Inr (Some (seqname2 pair, s2 block + (e1 block - 1 - pos))))
           else liftover_pairs rest seqname pos)
      else if seqname = seqname2 pair then
        (let i = bisect_right (blocks pair) pos in
         if i \<ge> length (blocks pair) then liftover_pairs rest seqname pos
         else
           let block = blocks pair ! i in
           if s2 block \<le> pos \<and> pos \<le> e2 block then
             (if strand1 pair = strand2 pair
              then Inr (Some (seqname1 pair, s1 block + (pos - s2 block)))
              else Inr (Some (seqname1 pair, s1 block + (e2 block - 1 - pos))))
           else liftover_pairs rest seqname pos)
      else liftover_pairs rest seqname pos)"

text \<open>
  \<^verbatim>\<open>liftover\<close> itself. The members of the set are SeqPair objects hashed by identity, so
  the order in which the \<^verbatim>\<open>for\<close> loop visits them is not fixed by the program: \<open>order\<close>
  gives it, as a rearrangement of the stored members. The index is returned too, since
  reading the \<^verbatim>\<open>defaultdict\<close> may add an entry.
\<close>

definition candidates :: "(nat list \<Rightarrow> nat list) \<Rightarrow> ChainIndex \<Rightarrow> nat \<Rightarrow> SeqPair list" where
  "candidates order idx a = map (\<lambda>p. pair_heap idx ! p) (order (set_heap idx ! a))"

definition liftover ::
  "(nat list \<Rightarrow> nat list) \<Rightarrow> ChainIndex \<Rightarrow> string \<Rightarrow> int
     \<Rightarrow> (py_error + (string \<times> int) option) \<times> ChainIndex" where
  "liftover order idx seqname pos =
     (let (a, idx') = getitem idx seqname
      in (liftover_pairs (candidates order idx' a) seqname pos, idx'))"

definition iteration_order :: "(nat list \<Rightarrow> nat list) \<Rightarrow> bool" where
  "iteration_order order \<longleftrightarrow> (\<forall>ps. mset (order ps) = mset ps)"

section \<open>Predicates used to state the properties\<close>

text \<open>Lines of ASCII characters, as chain files are.\<close>

definition ascii_line :: "string \<Rightarrow> bool" where
  "ascii_line line \<longleftrightarrow> list_all (\<lambda>c. of_char c < (128::nat)) line"

definition ascii_input :: "string list \<Rightarrow> bool" where
  "ascii_input f \<longleftrightarrow> list_all ascii_line f"

text \<open>
  A header line the parser accepts: eleven tokens or more, with integers at positions 5
  and 10. A body line the parser accepts: one integer, or three.
\<close>

definition header_ok :: "string \<Rightarrow> bool" where
  "header_ok line \<longleftrightarrow>
     (let items = py_split line
      in 11 \<le> length items \<and> py_int (items ! 5) \<noteq> None \<and> py_int (items ! 10) \<noteq> None)"

definition body_ok :: "string \<Rightarrow> bool" where
  "body_ok line \<longleftrightarrow>
     (case py_split line of
        [sz] \<Rightarrow> py_int sz \<noteq> None
      | [sz, n1, n2] \<Rightarrow> py_int sz \<noteq> None \<and> py_int n1 \<noteq> None \<and> py_int n2 \<noteq> None
      | _ \<Rightarrow> False)"

definition malformed :: "string \<Rightarrow> bool" where
  "malformed line \<longleftrightarrow>
     line \<noteq> [] \<and> \<not> skipped line
     \<and> (if startswith line ''chain'' then \<not> header_ok line else \<not> body_ok line)"

text \<open>
  A line that reaches the header branch of the loop, one that reaches the body branch,
  and what non-negative fields are.
\<close>

definition is_header :: "string \<Rightarrow> bool" where
  "is_header line \<longleftrightarrow> line \<noteq> [] \<and> \<not> skipped line \<and> startswith line ''chain''"

definition is_body :: "string \<Rightarrow> bool" where
  "is_body line \<longleftrightarrow> line \<noteq> [] \<and> \<not> skipped line \<and> \<not> startswith line ''chain''"

definition nonneg_fields :: "string \<Rightarrow> bool" where
  "nonneg_fields line \<longleftrightarrow>
     (case body_fields line of
        Inl e \<Rightarrow> False
      | Inr (sz, n1, n2) \<Rightarrow>
          (case (int_of sz, int_of n1, int_of n2) of
             (Some z, Some g1, Some g2) \<Rightarrow> 0 \<le> z \<and> 0 \<le> g1 \<and> 0 \<le> g2
           | _ \<Rightarrow> False))"

text \<open>
  The invariants of a block list: each block has the same length in both genomes and
  does not end before it starts, and each block ends before the next one starts, in both
  genomes.
\<close>

definition good_blocks :: "GapLessBlock list \<Rightarrow> bool" where
  "good_blocks bs \<longleftrightarrow>
     list_all (\<lambda>b. e1 b - s1 b = e2 b - s2 b \<and> s1 b \<le> e1 b) bs
     \<and> sorted_wrt (\<lambda>b b'. e1 b < s1 b' \<and> e2 b < s2 b') bs"

text \<open>Invariants of the parser's loop.\<close>

definition cursor_ok :: "build_state \<Rightarrow> bool" where
  "cursor_ok st \<longleftrightarrow>
     (case cur st of
        None \<Rightarrow> True
      | Some (pid, c1, c2) \<Rightarrow>
          pid < length (pair_heap (cidx st))
          \<and> list_all (\<lambda>b. e1 b < c1 \<and> e2 b < c2) (blocks (pair_heap (cidx st) ! pid)))"

definition blocks_inv :: "build_state \<Rightarrow> bool" where
  "blocks_inv st \<longleftrightarrow>
     list_all (\<lambda>pair. good_blocks (blocks pair)) (pair_heap (cidx st)) \<and> cursor_ok st"

definition single_inv :: "build_state \<Rightarrow> bool" where
  "single_inv st \<longleftrightarrow>
     (case pair_heap (cidx st) of
        [] \<Rightarrow> seqnames (cidx st) = [] \<and> set_heap (cidx st) = [] \<and> cur st = None
      | [p] \<Rightarrow> set_heap (cidx st) = [[0]]
               \<and> map_of (seqnames (cidx st)) (seqname1 p) = Some 0
               \<and> map_of (seqnames (cidx st)) (seqname2 p) = Some 0
               \<and> (case cur st of None \<Rightarrow> False | Some (pid, c1, c2) \<Rightarrow> pid = 0)
      | _ \<Rightarrow> True)"

text \<open>
  The loop of \<^verbatim>\<open>liftover\<close> reaches \<open>pair\<close>: every candidate visited before it contributes
  no result at this name and position.
\<close>

fun reaches :: "SeqPair list \<Rightarrow> SeqPair \<Rightarrow> string \<Rightarrow> int \<Rightarrow> bool" where
  "reaches [] pair name pos = False"
| "reaches (q # qs) pair name pos =
     (q = pair \<or> (liftover_pairs [q] name pos = Inr None \<and> reaches qs pair name pos))"

text \<open>
  The members of the set a name maps to, none for a name without an entry; and an index
  whose dictionary holds addresses of existing set objects only.
\<close>

definition pairs_of :: "ChainIndex \<Rightarrow> string \<Rightarrow> nat list" where
  "pairs_of idx name =
     (case map_of (seqnames idx) name of None \<Rightarrow> [] | Some a \<Rightarrow> set_heap idx ! a)"

definition wf_index :: "ChainIndex \<Rightarrow> bool" where
  "wf_index idx \<longleftrightarrow> list_all (\<lambda>(name, a). a < length (set_heap idx)) (seqnames idx)"

text \<open>The chain of the end-to-end example and the index built from it.\<close>

definition example_chain :: "string list" where
  "example_chain = [''chain 100 chr1 1000 + 0 100 chr2 1000 + 0 100 1'', ''100'']"

definition example_index :: ChainIndex where
  "example_index =
     \<lparr>seqnames = [(''chr1'', 0), (''chr2'', 0)], set_heap = [[0]],
      pair_heap = [\<lparr>seqname1 = ''chr1'', seqname2 = ''chr2'', strand1 = ''+'', strand2 = ''+'',
                    blocks = [\<lparr>s1 = 0, e1 = 100, s2 = 0, e2 = 100\<rparr>]\<rparr>]\<rparr>"

section \<open>Strings\<close>

lemma int_isspace_py_isspace: "int_isspace c \<Longrightarrow> py_isspace c"
  by (auto simp: int_isspace_def py_isspace_def)

lemma digit_not_space:
  assumes "digit c = Some d"
  shows "\<not> py_isspace c"
proof -
  from assms have "(c, d) \<in> set (zip ''0123456789'' [0..<10])"
    unfolding digit_def by (rule map_of_SomeD)
  then have "c \<in> set ''0123456789''" by (rule set_zip_leftD)
  then show ?thesis by (auto simp: py_isspace_def)
qed

lemma int_digits_no_space:
  "int_digits prev acc cs = Some n \<Longrightarrow> \<forall>c\<in>set cs. \<not> py_isspace c"
proof (induction cs arbitrary: prev acc)
  case Nil
  then show ?case by simp
next
  case (Cons c cs)
  show ?case
  proof (cases "digit c")
    case None
    with Cons.prems have u: "c = CHR ''_''" and r: "int_digits False acc cs = Some n"
      by (auto split: if_splits)
    from u have "\<not> py_isspace c" by (simp add: py_isspace_def)
    with Cons.IH [OF r] show ?thesis by simp
  next
    case (Some d)
    with Cons.prems have r: "int_digits True (10 * acc + d) cs = Some n" by simp
    from Some have "\<not> py_isspace c" by (rule digit_not_space)
    with Cons.IH [OF r] show ?thesis by simp
  qed
qed

lemma py_int_strip_no_space:
  assumes "py_int s = Some z"
  shows "int_strip s \<noteq> [] \<and> (\<forall>c\<in>set (int_strip s). \<not> py_isspace c)"
proof (cases "int_strip s")
  case Nil
  with assms show ?thesis by (simp add: py_int_def)
next
  case (Cons c cs)
  have sign: "\<not> py_isspace CHR ''-''" "\<not> py_isspace CHR ''+''"
    by (simp_all add: py_isspace_def)
  let ?ds = "if c = CHR ''-'' \<or> c = CHR ''+'' then cs else c # cs"
  from assms Cons obtain n where n: "int_digits False 0 ?ds = Some n"
    by (auto simp: py_int_def Let_def simp del: int_digits.simps split: if_splits)
  from int_digits_no_space [OF n] have "\<forall>x\<in>set ?ds. \<not> py_isspace x" .
  with sign have "\<forall>x\<in>set (c # cs). \<not> py_isspace x"
    by (auto split: if_splits)
  with Cons show ?thesis by simp
qed

lemma py_split_all_space:
  assumes "\<forall>c\<in>set s. py_isspace c"
  shows "py_split s = []"
proof -
  from assms have h: "dropWhile py_isspace s = []" by simp
  show ?thesis by (subst py_split.simps) (simp only: h list.case)
qed

lemma py_split_token:
  assumes "t \<noteq> []" and "\<forall>c\<in>set t. \<not> py_isspace c"
    and "\<forall>c\<in>set pre. py_isspace c" and "\<forall>c\<in>set post. py_isspace c"
  shows "py_split (pre @ t @ post) = [t]"
proof -
  obtain c cs where t: "t = c # cs" using assms(1) by (cases t) auto
  have d: "dropWhile py_isspace (pre @ t @ post) = c # (cs @ post)"
    using assms(2,3) t by (simp add: dropWhile_append2)
  have tk: "takeWhile (\<lambda>x. \<not> py_isspace x) (c # cs @ post) = t"
  proof (cases post)
    case Nil
    then show ?thesis using assms(2) t by simp
  next
    case (Cons p ps)
    then have "py_isspace p" using assms(4) by simp
    then have "takeWhile (\<lambda>x. \<not> py_isspace x) (t @ post) = t"
      using assms(2) Cons by (simp add: takeWhile_append2)
    then show ?thesis using t by simp
  qed
  have dr: "dropWhile (\<lambda>x. \<not> py_isspace x) (c # cs @ post) = dropWhile (\<lambda>x. \<not> py_isspace x) post"
    using assms(2) t dropWhile_append2 [of t "\<lambda>x. \<not> py_isspace x" post] by simp
  have "\<forall>c\<in>set (dropWhile (\<lambda>x. \<not> py_isspace x) post). py_isspace c"
    using assms(4) set_dropWhileD by fastforce
  then have e: "py_split (dropWhile (\<lambda>x. \<not> py_isspace x) post) = []"
    by (rule py_split_all_space)
  show ?thesis
    by (subst py_split.simps) (simp only: d tk dr e list.case)
qed

lemma rstrip_decompose:
  "\<exists>post. s = rev (dropWhile P (rev s)) @ post \<and> (\<forall>c\<in>set post. P c)"
proof -
  let ?post = "rev (takeWhile P (rev s))"
  have "s = rev (dropWhile P (rev s)) @ ?post"
    by (metis rev_append rev_rev_ident takeWhile_dropWhile_id)
  moreover have "\<forall>c\<in>set ?post. P c" by (auto dest: set_takeWhileD)
  ultimately show ?thesis by blast
qed

lemma int_strip_decompose:
  "\<exists>pre post. s = pre @ int_strip s @ post
     \<and> (\<forall>c\<in>set pre. int_isspace c) \<and> (\<forall>c\<in>set post. int_isspace c)"
proof -
  let ?r = "rev (dropWhile int_isspace (rev s))"
  let ?pre = "takeWhile int_isspace ?r"
  obtain post where 1: "s = ?r @ post" and p: "\<forall>c\<in>set post. int_isspace c"
    using rstrip_decompose [of s int_isspace] by blast
  have 2: "?r = ?pre @ int_strip s" by (simp add: int_strip_def)
  have "\<forall>c\<in>set ?pre. int_isspace c" by (auto dest: set_takeWhileD)
  with 1 2 p show ?thesis by (metis append.assoc)
qed

lemma int_strip_id:
  assumes "t \<noteq> []" "\<forall>c\<in>set t. \<not> py_isspace c"
  shows "int_strip t = t"
proof -
  from assms(2) have n: "\<forall>c\<in>set t. \<not> int_isspace c"
    by (auto dest: int_isspace_py_isspace)
  with assms(1) have "\<not> int_isspace (hd (rev t))" "\<not> int_isspace (hd t)" "rev t \<noteq> []"
    by (simp_all add: hd_rev)
  then have "rev (dropWhile int_isspace (rev t)) = t"
    by (cases "rev t") auto
  then show ?thesis using \<open>\<not> int_isspace (hd t)\<close> assms(1)
    unfolding int_strip_def by (cases t) auto
qed

lemma py_int_rstrip_single:
  assumes "py_int (py_rstrip l) = Some z"
  shows "\<exists>t. py_split l = [t] \<and> py_int t = Some z"
proof -
  let ?t = "int_strip (py_rstrip l)"
  from py_int_strip_no_space [OF assms]
  have ne: "?t \<noteq> []" and ns: "\<forall>c\<in>set ?t. \<not> py_isspace c" by simp_all
  obtain pre mid where r: "py_rstrip l = pre @ ?t @ mid"
    and sp: "\<forall>c\<in>set pre. int_isspace c" "\<forall>c\<in>set mid. int_isspace c"
    using int_strip_decompose by blast
  obtain post where l: "l = py_rstrip l @ post" and pp: "\<forall>c\<in>set post. py_isspace c"
    using rstrip_decompose [of l py_isspace] by (auto simp: py_rstrip_def)
  from l r have l': "l = pre @ ?t @ (mid @ post)" by (metis append.assoc)
  have "py_split (pre @ ?t @ (mid @ post)) = [?t]"
    using ne ns sp pp by (intro py_split_token) (auto dest: int_isspace_py_isspace)
  with l' have a: "py_split l = [?t]" by simp
  have "py_int ?t = py_int (py_rstrip l)"
    by (simp add: py_int_def int_strip_id [OF ne ns])
  with assms a show ?thesis by simp
qed

section \<open>Binary search\<close>

lemma bisect_left_loop_eq:
  assumes "lo \<le> k" "k \<le> hi" "hi \<le> length a"
    and "\<forall>j<k. block_lt (a ! j) x"
    and "\<forall>j. k \<le> j \<and> j < length a \<longrightarrow> \<not> block_lt (a ! j) x"
  shows "bisect_left_loop a x lo hi = k"
  using assms
proof (induction a x lo hi rule: bisect_left_loop.induct)
  case (1 a x lo hi)
  let ?mid = "(lo + hi) div 2"
  show ?case
  proof (cases "lo < hi")
    case False
    with "1.prems" show ?thesis by (subst bisect_left_loop.simps) simp
  next
    case True
    then have m: "lo \<le> ?mid" "?mid < hi" by auto
    show ?thesis
    proof (cases "block_lt (a ! ?mid) x")
      case lt: True
      have "?mid < k"
      proof (rule ccontr)
        assume "\<not> ?mid < k"
        then have "k \<le> ?mid \<and> ?mid < length a" using m "1.prems"(3) by simp
        with "1.prems"(5) lt show False by blast
      qed
      then have "bisect_left_loop a x (?mid + 1) hi = k"
        using "1.IH"(1) [OF True lt] "1.prems" by simp
      with True lt show ?thesis by (subst bisect_left_loop.simps) simp
    next
      case ge: False
      have "k \<le> ?mid"
      proof (rule ccontr)
        assume "\<not> k \<le> ?mid"
        then have "?mid < k" by simp
        with "1.prems"(4) ge show False by blast
      qed
      then have "bisect_left_loop a x lo ?mid = k"
        using "1.IH"(2) [OF True ge] "1.prems" m by simp
      with True ge show ?thesis by (subst bisect_left_loop.simps) simp
    qed
  qed
qed

lemma bisect_right_loop_eq:
  assumes "lo \<le> k" "k \<le> hi" "hi \<le> length a"
    and "\<forall>j<k. \<not> block_gt (a ! j) x"
    and "\<forall>j. k \<le> j \<and> j < length a \<longrightarrow> block_gt (a ! j) x"
  shows "bisect_right_loop a x lo hi = k"
  using assms
proof (induction a x lo hi rule: bisect_right_loop.induct)
  case (1 a x lo hi)
  let ?mid = "(lo + hi) div 2"
  show ?case
  proof (cases "lo < hi")
    case False
    with "1.prems" show ?thesis by (subst bisect_right_loop.simps) simp
  next
    case True
    then have m: "lo \<le> ?mid" "?mid < hi" by auto
    show ?thesis
    proof (cases "block_gt (a ! ?mid) x")
      case gt: True
      have "k \<le> ?mid"
      proof (rule ccontr)
        assume "\<not> k \<le> ?mid"
        then have "?mid < k" by simp
        with "1.prems"(4) gt show False by blast
      qed
      then have "bisect_right_loop a x lo ?mid = k"
        using "1.IH"(1) [OF True gt] "1.prems" m by simp
      with True gt show ?thesis by (subst bisect_right_loop.simps) simp
    next
      case le: False
      have "?mid < k"
      proof (rule ccontr)
        assume "\<not> ?mid < k"
        then have "k \<le> ?mid \<and> ?mid < length a" using m "1.prems"(3) by simp
        with "1.prems"(5) le show False by blast
      qed
      then have "bisect_right_loop a x (?mid + 1) hi = k"
        using "1.IH"(2) [OF True le] "1.prems" by simp
      with True le show ?thesis by (subst bisect_right_loop.simps) simp
    qed
  qed
qed

lemma good_blocks_nth:
  assumes "good_blocks bs" "i < j" "j < length bs"
  shows "e1 (bs ! i) < s1 (bs ! j)" "e2 (bs ! i) < s2 (bs ! j)"
  using assms by (auto simp: good_blocks_def sorted_wrt_iff_nth_less)

lemma good_blocks_block:
  assumes "good_blocks bs" "j < length bs"
  shows "s1 (bs ! j) \<le> e1 (bs ! j)" "e1 (bs ! j) - s1 (bs ! j) = e2 (bs ! j) - s2 (bs ! j)"
  using assms by (auto simp: good_blocks_def list_all_length)

lemma bisect_left_covered:
  assumes g: "good_blocks bs" and k: "k < length bs"
    and p: "s1 (bs ! k) \<le> p" "p \<le> e1 (bs ! k)"
  shows "bisect_left bs p = k"
  unfolding bisect_left_def
proof (rule bisect_left_loop_eq)
  show "\<forall>j<k. block_lt (bs ! j) p"
    using good_blocks_nth(1) [OF g _ k] p(1) by (fastforce simp: block_lt_def)
  show "\<forall>j. k \<le> j \<and> j < length bs \<longrightarrow> \<not> block_lt (bs ! j) p"
  proof (intro allI impI)
    fix j assume j: "k \<le> j \<and> j < length bs"
    show "\<not> block_lt (bs ! j) p"
    proof (cases "j = k")
      case True
      with p(2) show ?thesis by (simp add: block_lt_def)
    next
      case False
      with j have "k < j" "j < length bs" by simp_all
      from good_blocks_nth(1) [OF g this] good_blocks_block(1) [OF g \<open>j < length bs\<close>] p(2)
      show ?thesis by (simp add: block_lt_def)
    qed
  qed
qed (use k in simp_all)

lemma bisect_right_covered:
  assumes g: "good_blocks bs" and k: "k < length bs"
    and q: "s2 (bs ! k) \<le> q" "q < e2 (bs ! k)"
  shows "bisect_right bs q = k"
  unfolding bisect_right_def
proof (rule bisect_right_loop_eq)
  show "\<forall>j<k. \<not> block_gt (bs ! j) q"
    using good_blocks_nth(2) [OF g _ k] q(1) by (fastforce simp: block_gt_def)
  show "\<forall>j. k \<le> j \<and> j < length bs \<longrightarrow> block_gt (bs ! j) q"
  proof (intro allI impI)
    fix j assume j: "k \<le> j \<and> j < length bs"
    show "block_gt (bs ! j) q"
    proof (cases "j = k")
      case True
      with q(2) show ?thesis by (simp add: block_gt_def)
    next
      case False
      with j have kj: "k < j" "j < length bs" by simp_all
      from good_blocks_block [OF g kj(2)] have "s2 (bs ! j) \<le> e2 (bs ! j)" by simp
      with good_blocks_nth(2) [OF g kj] q(2)
      show ?thesis by (simp add: block_gt_def)
    qed
  qed
qed (use k in simp_all)

lemma bisect_right_at_end:
  assumes g: "good_blocks bs" and k: "k < length bs"
  shows "bisect_right bs (e2 (bs ! k)) = k + 1"
  unfolding bisect_right_def
proof (rule bisect_right_loop_eq)
  show "\<forall>j<k + 1. \<not> block_gt (bs ! j) (e2 (bs ! k))"
  proof (intro allI impI)
    fix j assume "j < k + 1"
    then consider "j = k" | "j < k" by linarith
    then show "\<not> block_gt (bs ! j) (e2 (bs ! k))"
    proof cases
      case 1
      then show ?thesis by (simp add: block_gt_def)
    next
      case 2
      from good_blocks_block [OF g k] have "s2 (bs ! k) \<le> e2 (bs ! k)" by simp
      with good_blocks_nth(2) [OF g 2 k] show ?thesis by (simp add: block_gt_def)
    qed
  qed
  show "\<forall>j. k + 1 \<le> j \<and> j < length bs \<longrightarrow> block_gt (bs ! j) (e2 (bs ! k))"
  proof (intro allI impI)
    fix j assume j: "k + 1 \<le> j \<and> j < length bs"
    then have kj: "k < j" "j < length bs" by simp_all
    from good_blocks_block [OF g kj(2)] have "s2 (bs ! j) \<le> e2 (bs ! j)" by simp
    with good_blocks_nth(2) [OF g kj] show "block_gt (bs ! j) (e2 (bs ! k))"
      by (simp add: block_gt_def)
  qed
qed (use k in simp_all)


section \<open>The loop of liftover\<close>

lemma liftover_pairs_skip:
  "liftover_pairs [q] name pos = Inr None \<Longrightarrow>
   liftover_pairs (q # rest) name pos = liftover_pairs rest name pos"
  by (auto simp: Let_def split: if_splits)

lemma liftover_pairs_prefix:
  "\<forall>q\<in>set pre. liftover_pairs [q] name pos = Inr None \<Longrightarrow>
   liftover_pairs (pre @ rest) name pos = liftover_pairs rest name pos"
proof (induction pre)
  case Nil
  then show ?case by simp
next
  case (Cons q pre)
  then have "liftover_pairs (q # (pre @ rest)) name pos = liftover_pairs (pre @ rest) name pos"
    by (intro liftover_pairs_skip) simp
  with Cons show ?case by simp
qed

lemma liftover_pairs_role_A:
  assumes "good_blocks (blocks pair)" "k < length (blocks pair)"
    and "s1 (blocks pair ! k) \<le> p" "p \<le> e1 (blocks pair ! k)"
  shows "liftover_pairs (pair # rest) (seqname1 pair) p =
           Inr (Some (seqname2 pair,
                      if strand1 pair = strand2 pair
                      then s2 (blocks pair ! k) + (p - s1 (blocks pair ! k))
                      else s2 (blocks pair ! k) + (e1 (blocks pair ! k) - 1 - p)))"
  using assms bisect_left_covered [OF assms] by (simp add: Let_def)

lemma liftover_pairs_role_B:
  assumes "good_blocks (blocks pair)" "k < length (blocks pair)"
    and "s2 (blocks pair ! k) \<le> q" "q < e2 (blocks pair ! k)"
    and "seqname1 pair \<noteq> seqname2 pair"
  shows "liftover_pairs (pair # rest) (seqname2 pair) q =
           Inr (Some (seqname1 pair,
                      if strand1 pair = strand2 pair
                      then s1 (blocks pair ! k) + (q - s2 (blocks pair ! k))
                      else s1 (blocks pair ! k) + (e2 (blocks pair ! k) - 1 - q)))"
  using assms bisect_right_covered [OF assms(1-4)] by (simp add: Let_def)

lemma liftover_pairs_role_B_end:
  assumes g: "good_blocks (blocks pair)" and k: "k < length (blocks pair)"
    and ne: "seqname1 pair \<noteq> seqname2 pair"
  shows "liftover_pairs (pair # rest) (seqname2 pair) (e2 (blocks pair ! k)) =
           liftover_pairs rest (seqname2 pair) (e2 (blocks pair ! k))"
proof (cases "k + 1 < length (blocks pair)")
  case True
  from good_blocks_nth(2) [OF g _ True, of k]
  have "e2 (blocks pair ! k) < s2 (blocks pair ! (k + 1))" by simp
  with ne True bisect_right_at_end [OF g k] show ?thesis by (simp add: Let_def)
next
  case False
  with ne bisect_right_at_end [OF g k] show ?thesis by (simp add: Let_def)
qed

lemma liftover_pairs_past_last:
  assumes "\<forall>b\<in>set (blocks pair). e1 b < pos"
  shows "liftover_pairs (pair # rest) (seqname1 pair) pos = Inl IndexError"
proof -
  have "bisect_left_loop (blocks pair) pos 0 (length (blocks pair)) = length (blocks pair)"
    using assms by (intro bisect_left_loop_eq) (simp_all add: block_lt_def)
  then show ?thesis by (simp add: bisect_left_def Let_def)
qed

lemma getitem_registered:
  "map_of (seqnames idx) name = Some a \<Longrightarrow> getitem idx name = (a, idx)"
  by (simp add: getitem_def)

lemma liftover_registered:
  "map_of (seqnames idx) name = Some a \<Longrightarrow>
   liftover order idx name pos = (liftover_pairs (candidates order idx a) name pos, idx)"
  by (simp add: liftover_def getitem_registered)

lemma iteration_order_single:
  assumes "iteration_order order"
  shows "order [p] = [p]"
proof -
  from assms have "mset (order [p]) = {#p#}" by (simp add: iteration_order_def)
  then show ?thesis by (simp add: mset_single_iff_right)
qed

lemma iteration_order_Nil:
  assumes "iteration_order order"
  shows "order [] = []"
proof -
  from assms have "mset (order []) = {#}" by (simp add: iteration_order_def)
  then show ?thesis by simp
qed

section \<open>Lines the parser rejects\<close>

lemma chain_header_fails:
  "\<not> header_ok line \<Longrightarrow> \<exists>e. chain_header st line = Inl e"
  by (auto simp: header_ok_def chain_header_def Let_def split: prod.splits option.splits)

lemma body_line_fails:
  assumes "\<not> body_ok line"
  shows "\<exists>e. body_line st line = Inl e"
proof (cases "\<exists>sz n1 n2. py_split line = [sz, n1, n2]")
  case True
  then obtain sz n1 n2 where sp: "py_split line = [sz, n1, n2]" by blast
  with assms have "py_int sz = None \<or> py_int n1 = None \<or> py_int n2 = None"
    by (auto simp: body_ok_def)
  with sp show ?thesis
    by (auto simp: body_line_def body_fields_def Let_def split: option.splits)
next
  case False
  have "py_int (py_rstrip line) = None"
  proof (rule ccontr)
    assume "py_int (py_rstrip line) \<noteq> None"
    then obtain z where "py_int (py_rstrip line) = Some z" by auto
    from py_int_rstrip_single [OF this] have "body_ok line"
      by (auto simp: body_ok_def)
    with assms show False by simp
  qed
  moreover from False have "body_fields line =
      (case py_int (py_rstrip line) of None \<Rightarrow> Inl ValueError
       | Some z \<Rightarrow> Inr (PyInt z, PyInt 0, PyInt 0))"
    by (auto simp: body_fields_def split: list.splits)
  ultimately show ?thesis by (simp add: body_line_def)
qed

lemma build_loop_malformed:
  assumes "\<exists>line\<in>set f. malformed line"
  shows "\<exists>e. build_loop st f = Inl e"
  using assms
proof (induction f arbitrary: st)
  case Nil
  then show ?case by simp
next
  case (Cons line f)
  show ?case
  proof (cases "malformed line")
    case True
    then show ?thesis
      using chain_header_fails [of line st] body_line_fails [of line st]
      by (auto simp: malformed_def split: if_splits)
  next
    case False
    with Cons.prems have "\<exists>l\<in>set f. malformed l" by simp
    from Cons.IH [OF this] have ih: "\<exists>e. build_loop st' f = Inl e" for st' .
    then show ?thesis
      by (auto split: sum.splits)
  qed
qed



section \<open>Block invariants of the parser\<close>

lemma getitem_pair_heap: "pair_heap (snd (getitem idx name)) = pair_heap idx"
  by (simp add: getitem_def split: option.splits)

lemma chain_header_pair_heap:
  assumes "chain_header st line = Inr st'"
  shows "\<exists>pair. pair_heap (cidx st') = pair_heap (cidx st) @ [pair] \<and> blocks pair = []
           \<and> (\<exists>v1 v2. cur st' = Some (length (pair_heap (cidx st)), v1, v2))"
proof -
  let ?items = "py_split line"
  let ?idx1 = "(cidx st)\<lparr>pair_heap := pair_heap (cidx st) @
       [\<lparr>seqname1 = ?items ! 2, seqname2 = ?items ! 7,
         strand1 = ?items ! 4, strand2 = ?items ! 9, blocks = []\<rparr>]\<rparr>"
  have "pair_heap (snd (getitem ?idx1 (?items ! 2))) = pair_heap ?idx1"
    by (rule getitem_pair_heap)
  with assms show ?thesis
    by (auto simp: chain_header_def Let_def split: if_splits option.splits prod.splits)
qed

lemma good_blocks_snoc:
  assumes "good_blocks bs" "list_all (\<lambda>x. e1 x < s1 b \<and> e2 x < s2 b) bs"
    and "e1 b - s1 b = e2 b - s2 b" "s1 b \<le> e1 b"
  shows "good_blocks (bs @ [b])"
  using assms by (auto simp: good_blocks_def sorted_wrt_append list_all_iff)

lemma chain_header_blocks_inv:
  assumes "chain_header st line = Inr st'" "blocks_inv st"
  shows "blocks_inv st'"
proof -
  from chain_header_pair_heap [OF assms(1)] obtain pair v1 v2 where
    h: "pair_heap (cidx st') = pair_heap (cidx st) @ [pair]" "blocks pair = []"
       "cur st' = Some (length (pair_heap (cidx st)), v1, v2)"
    by blast
  then show ?thesis using assms(2)
    by (simp add: blocks_inv_def cursor_ok_def good_blocks_def)
qed

lemma body_line_blocks_inv:
  assumes "body_line st line = Inr st'" "blocks_inv st" "nonneg_fields line"
  shows "blocks_inv st'"
proof -
  from assms(1) obtain sz n1 n2 z g1 g2 pid c1 c2 where
    f: "body_fields line = Inr (sz, n1, n2)" "int_of sz = Some z"
       "int_of n1 = Some g1" "int_of n2 = Some g2"
    and c: "cur st = Some (pid, c1, c2)"
    and st': "st' = \<lparr>cidx = append_block (cidx st) pid \<lparr>s1 = c1, e1 = c1 + z, s2 = c2, e2 = c2 + z\<rparr>,
                    cur = Some (pid, c1 + z + g1 + 1, c2 + z + g2 + 1)\<rparr>"
    by (auto simp: body_line_def Let_def split: sum.splits option.splits prod.splits)
  from f assms(3) have nn: "0 \<le> z" "0 \<le> g1" "0 \<le> g2"
    by (simp_all add: nonneg_fields_def)
  let ?b = "\<lparr>s1 = c1, e1 = c1 + z, s2 = c2, e2 = c2 + z\<rparr>"
  let ?ph = "pair_heap (cidx st)"
  from assms(2) c have pid: "pid < length ?ph"
    and lt: "list_all (\<lambda>b. e1 b < c1 \<and> e2 b < c2) (blocks (?ph ! pid))"
    and all: "list_all (\<lambda>pair. good_blocks (blocks pair)) ?ph"
    by (simp_all add: blocks_inv_def cursor_ok_def)
  from all pid have g: "good_blocks (blocks (?ph ! pid))"
    by (simp add: list_all_length)
  have g': "good_blocks (blocks (?ph ! pid) @ [?b])"
    using g lt nn by (intro good_blocks_snoc) simp_all
  have ph': "pair_heap (cidx st') = ?ph[pid := (?ph ! pid)\<lparr>blocks := blocks (?ph ! pid) @ [?b]\<rparr>]"
    by (simp add: st' append_block_def)
  have 1: "list_all (\<lambda>pair. good_blocks (blocks pair)) (pair_heap (cidx st'))"
    unfolding ph' list_all_length
  proof (intro allI impI)
    fix n assume "n < length (?ph[pid := (?ph ! pid)\<lparr>blocks := blocks (?ph ! pid) @ [?b]\<rparr>])"
    then have n: "n < length ?ph" by simp
    show "good_blocks (blocks (?ph[pid := (?ph ! pid)\<lparr>blocks := blocks (?ph ! pid) @ [?b]\<rparr>] ! n))"
    proof (cases "n = pid")
      case True
      with pid g' show ?thesis by simp
    next
      case False
      with all n show ?thesis by (simp add: list_all_length)
    qed
  qed
  have 2: "cursor_ok st'"
    using pid lt nn by (auto simp: cursor_ok_def st' append_block_def list_all_iff)
  from 1 2 show ?thesis by (simp add: blocks_inv_def)
qed

lemma build_loop_blocks_inv:
  assumes "build_loop st f = Inr st'" "blocks_inv st"
    and "\<forall>line\<in>set f. is_body line \<longrightarrow> nonneg_fields line"
  shows "blocks_inv st'"
  using assms
proof (induction f arbitrary: st)
  case Nil
  then show ?case by simp
next
  case (Cons line f)
  from Cons.prems(1) have ne: "line \<noteq> []" by (auto split: if_splits)
  show ?case
  proof (cases "skipped line")
    case True
    with Cons ne show ?thesis by simp
  next
    case ns: False
    show ?thesis
    proof (cases "startswith line ''chain''")
      case True
      with Cons.prems(1) ne ns obtain st1 where
        s: "chain_header st line = Inr st1" "build_loop st1 f = Inr st'"
        by (auto split: sum.splits)
      from chain_header_blocks_inv [OF s(1) Cons.prems(2)] Cons.IH [OF s(2)] Cons.prems(3)
      show ?thesis by simp
    next
      case False
      with Cons.prems(1) ne ns obtain st1 where
        s: "body_line st line = Inr st1" "build_loop st1 f = Inr st'"
        by (auto split: sum.splits)
      from False ne ns Cons.prems(3) have "nonneg_fields line"
        by (simp add: is_body_def)
      from body_line_blocks_inv [OF s(1) Cons.prems(2) this] Cons.IH [OF s(2)] Cons.prems(3)
      show ?thesis by simp
    qed
  qed
qed

lemma blocks_inv_init: "blocks_inv \<lparr>cidx = empty_index, cur = None\<rparr>"
  by (simp add: blocks_inv_def cursor_ok_def empty_index_def)

lemma construct_good_blocks:
  assumes "construct_from_chain_file f = Inr idx"
    and "\<forall>line\<in>set f. is_body line \<longrightarrow> nonneg_fields line"
  shows "list_all (\<lambda>pair. good_blocks (blocks pair)) (pair_heap idx)"
proof -
  from assms(1) obtain st' where
    b: "build_loop \<lparr>cidx = empty_index, cur = None\<rparr> f = Inr st'" and i: "idx = cidx st'"
    by (auto simp: construct_from_chain_file_def split: sum.splits)
  from build_loop_blocks_inv [OF b blocks_inv_init assms(2)] i
  show ?thesis by (simp add: blocks_inv_def)
qed

lemma good_blocks_increasing:
  assumes "good_blocks bs"
  shows "sorted_wrt (\<lambda>b b'. s1 b < s1 b' \<and> e1 b < e1 b' \<and> e1 b < s1 b' \<and> e2 b < s2 b') bs"
  unfolding sorted_wrt_iff_nth_less
proof (intro allI impI)
  fix i j assume ij: "i < j" "j < length bs"
  then have i: "i < length bs" by simp
  from good_blocks_nth [OF assms ij] good_blocks_block(1) [OF assms i]
    good_blocks_block(1) [OF assms ij(2)]
  show "s1 (bs ! i) < s1 (bs ! j) \<and> e1 (bs ! i) < e1 (bs ! j) \<and> e1 (bs ! i) < s1 (bs ! j)
          \<and> e2 (bs ! i) < s2 (bs ! j)"
    by simp
qed

section \<open>Reaching a pair\<close>

lemma reaches_liftover_pairs:
  "reaches cs pair name pos \<Longrightarrow>
   \<exists>rest. liftover_pairs cs name pos = liftover_pairs (pair # rest) name pos"
proof (induction cs)
  case Nil
  then show ?case by simp
next
  case (Cons q qs)
  show ?case
  proof (cases "q = pair")
    case True
    then show ?thesis by blast
  next
    case False
    with Cons.prems have s: "liftover_pairs [q] name pos = Inr None" and r: "reaches qs pair name pos"
      by simp_all
    from Cons.IH [OF r] obtain rest where
      "liftover_pairs qs name pos = liftover_pairs (pair # rest) name pos" by blast
    with liftover_pairs_skip [OF s, of qs] show ?thesis by metis
  qed
qed

lemma liftover_reaches_role_A:
  assumes reg: "map_of (seqnames idx) (seqname1 pair) = Some a"
    and r: "reaches (candidates order idx a) pair (seqname1 pair) p"
    and g: "good_blocks (blocks pair)" and b: "b \<in> set (blocks pair)"
    and p: "s1 b \<le> p" "p \<le> e1 b"
  shows "fst (liftover order idx (seqname1 pair) p) =
           Inr (Some (seqname2 pair,
                      if strand1 pair = strand2 pair then s2 b + (p - s1 b)
                      else s2 b + (e1 b - 1 - p)))"
proof -
  from b obtain k where k: "k < length (blocks pair)" "blocks pair ! k = b"
    by (auto simp: in_set_conv_nth)
  from reaches_liftover_pairs [OF r] obtain rest where
    "liftover_pairs (candidates order idx a) (seqname1 pair) p =
       liftover_pairs (pair # rest) (seqname1 pair) p" by blast
  also have "\<dots> = Inr (Some (seqname2 pair,
                      if strand1 pair = strand2 pair then s2 b + (p - s1 b)
                      else s2 b + (e1 b - 1 - p)))"
    using liftover_pairs_role_A [OF g k(1), of p rest] p k(2) by simp
  finally show ?thesis by (simp add: liftover_registered [OF reg])
qed

lemma liftover_reaches_role_B:
  assumes reg: "map_of (seqnames idx) (seqname2 pair) = Some a"
    and r: "reaches (candidates order idx a) pair (seqname2 pair) q"
    and g: "good_blocks (blocks pair)" and b: "b \<in> set (blocks pair)"
    and q: "s2 b \<le> q" "q < e2 b"
    and ne: "seqname1 pair \<noteq> seqname2 pair"
  shows "fst (liftover order idx (seqname2 pair) q) =
           Inr (Some (seqname1 pair,
                      if strand1 pair = strand2 pair then s1 b + (q - s2 b)
                      else s1 b + (e2 b - 1 - q)))"
proof -
  from b obtain k where k: "k < length (blocks pair)" "blocks pair ! k = b"
    by (auto simp: in_set_conv_nth)
  from reaches_liftover_pairs [OF r] obtain rest where
    "liftover_pairs (candidates order idx a) (seqname2 pair) q =
       liftover_pairs (pair # rest) (seqname2 pair) q" by blast
  also have "\<dots> = Inr (Some (seqname1 pair,
                      if strand1 pair = strand2 pair then s1 b + (q - s2 b)
                      else s1 b + (e2 b - 1 - q)))"
    using liftover_pairs_role_B [OF g k(1), of q rest] q k(2) ne by simp
  finally show ?thesis by (simp add: liftover_registered [OF reg])
qed

section \<open>What liftover leaves unchanged\<close>

lemma wf_index_lookup:
  "wf_index idx \<Longrightarrow> map_of (seqnames idx) n = Some a \<Longrightarrow> a < length (set_heap idx)"
  by (auto simp: wf_index_def list_all_iff dest: map_of_SomeD)

lemma set_update_subset: "set (AList.update k v al) \<subseteq> insert (k, v) (set al)"
  by (induction al) auto

lemma getitem_wf:
  assumes "wf_index idx" "getitem idx name = (a, idx')"
  shows "wf_index idx'" and "a < length (set_heap idx')"
    and "length (set_heap idx) \<le> length (set_heap idx')"
  using assms wf_index_lookup [OF assms(1), of name]
  by (fastforce simp: getitem_def wf_index_def list_all_iff less_Suc_eq split: option.splits)+

lemma chain_header_wf:
  assumes "chain_header st line = Inr st'" "wf_index (cidx st)"
  shows "wf_index (cidx st')"
proof -
  let ?items = "py_split line"
  let ?idx1 = "(cidx st)\<lparr>pair_heap := pair_heap (cidx st) @
       [\<lparr>seqname1 = ?items ! 2, seqname2 = ?items ! 7,
         strand1 = ?items ! 4, strand2 = ?items ! 9, blocks = []\<rparr>]\<rparr>"
  obtain a idx2 where g: "getitem ?idx1 (?items ! 2) = (a, idx2)" by fastforce
  from assms(2) have "wf_index ?idx1" by (simp add: wf_index_def)
  note w = getitem_wf [OF this g]
  from assms(1) g have c: "seqnames (cidx st') = AList.update (?items ! 7) a (seqnames idx2)"
    "length (set_heap (cidx st')) = length (set_heap idx2)"
    by (auto simp: chain_header_def Let_def split: if_splits option.splits)
  from w(1,2) set_update_subset [of "?items ! 7" a "seqnames idx2"] show ?thesis
    unfolding wf_index_def list_all_iff c by auto
qed

lemma body_line_wf:
  assumes "body_line st line = Inr st'" "wf_index (cidx st)"
  shows "wf_index (cidx st')"
  using assms
  by (auto simp: body_line_def Let_def append_block_def wf_index_def
      split: sum.splits option.splits prod.splits)

lemma build_loop_wf:
  assumes "build_loop st f = Inr st'" "wf_index (cidx st)"
  shows "wf_index (cidx st')"
  using assms
proof (induction f arbitrary: st)
  case Nil
  then show ?case by simp
next
  case (Cons line f)
  from Cons.prems(1) have ne: "line \<noteq> []" by (auto split: if_splits)
  show ?case
  proof (cases "skipped line")
    case True
    with Cons ne show ?thesis by simp
  next
    case ns: False
    show ?thesis
    proof (cases "startswith line ''chain''")
      case True
      with Cons.prems(1) ne ns obtain st1 where
        s: "chain_header st line = Inr st1" "build_loop st1 f = Inr st'"
        by (auto split: sum.splits)
      from Cons.IH [OF s(2) chain_header_wf [OF s(1) Cons.prems(2)]]
      show ?thesis .
    next
      case False
      with Cons.prems(1) ne ns obtain st1 where
        s: "body_line st line = Inr st1" "build_loop st1 f = Inr st'"
        by (auto split: sum.splits)
      from Cons.IH [OF s(2) body_line_wf [OF s(1) Cons.prems(2)]]
      show ?thesis .
    qed
  qed
qed

lemma construct_wf_index:
  assumes "construct_from_chain_file f = Inr idx"
  shows "wf_index idx"
proof -
  from assms obtain st' where
    b: "build_loop \<lparr>cidx = empty_index, cur = None\<rparr> f = Inr st'" and i: "idx = cidx st'"
    by (auto simp: construct_from_chain_file_def split: sum.splits)
  have "wf_index (cidx \<lparr>cidx = empty_index, cur = None\<rparr>)"
    by (simp add: wf_index_def empty_index_def)
  from build_loop_wf [OF b this] i show ?thesis by simp
qed

lemma getitem_pairs_of:
  assumes "wf_index idx"
  shows "pairs_of (snd (getitem idx name)) n = pairs_of idx n"
proof (cases "map_of (seqnames idx) name")
  case (Some a)
  then show ?thesis by (simp add: getitem_def)
next
  case None
  show ?thesis
  proof (cases "map_of (seqnames idx) n")
    case (Some a)
    with wf_index_lookup [OF assms Some] None show ?thesis
      by (simp add: getitem_def pairs_of_def nth_append map_add_def)
  next
    case n: None
    with None show ?thesis
      by (simp add: getitem_def pairs_of_def map_add_def)
  qed
qed

lemma liftover_unregistered:
  assumes "map_of (seqnames idx) name = None" "iteration_order order"
  shows "liftover order idx name pos =
           (Inr None, idx\<lparr>seqnames := seqnames idx @ [(name, length (set_heap idx))],
                          set_heap := set_heap idx @ [[]]\<rparr>)"
  using assms iteration_order_Nil [OF assms(2)]
  by (simp add: liftover_def getitem_def candidates_def)

section \<open>An index built from one chain\<close>

lemma chain_header_single_inv:
  assumes "chain_header st line = Inr st'" "single_inv st"
  shows "single_inv st'"
proof (cases "pair_heap (cidx st)")
  case Nil
  with assms(2) have e: "seqnames (cidx st) = []" "set_heap (cidx st) = []"
    by (simp_all add: single_inv_def)
  with assms(1) Nil show ?thesis
    by (auto simp: chain_header_def getitem_def set_add_def single_inv_def Let_def
        split: if_splits option.splits)
next
  case (Cons x xs)
  from chain_header_pair_heap [OF assms(1)] obtain pair where
    "pair_heap (cidx st') = pair_heap (cidx st) @ [pair]" by blast
  with Cons have "pair_heap (cidx st') = x # (xs @ [pair])" by simp
  then show ?thesis by (cases xs) (simp_all add: single_inv_def)
qed

lemma body_line_single_inv:
  assumes "body_line st line = Inr st'" "single_inv st"
  shows "single_inv st'"
proof -
  from assms(1) obtain pid c1 c2 b c1' c2' where
    c: "cur st = Some (pid, c1, c2)"
    and st': "st' = \<lparr>cidx = append_block (cidx st) pid b, cur = Some (pid, c1', c2')\<rparr>"
    by (auto simp: body_line_def Let_def split: sum.splits option.splits prod.splits)
  show ?thesis
  proof (cases "pair_heap (cidx st)")
    case Nil
    with assms(2) c show ?thesis by (simp add: single_inv_def)
  next
    case (Cons x xs)
    show ?thesis
    proof (cases xs)
      case Nil
      with Cons assms(2) c st' show ?thesis
        by (simp add: single_inv_def append_block_def)
    next
      case (Cons y ys)
      with \<open>pair_heap (cidx st) = x # xs\<close> st' show ?thesis
        by (cases pid; cases "pid - 1") (simp_all add: single_inv_def append_block_def)
    qed
  qed
qed

lemma build_loop_single_inv:
  assumes "build_loop st f = Inr st'" "single_inv st"
  shows "single_inv st'"
  using assms
proof (induction f arbitrary: st)
  case Nil
  then show ?case by simp
next
  case (Cons line f)
  from Cons.prems(1) have ne: "line \<noteq> []" by (auto split: if_splits)
  show ?case
  proof (cases "skipped line")
    case True
    with Cons ne show ?thesis by simp
  next
    case ns: False
    show ?thesis
    proof (cases "startswith line ''chain''")
      case True
      with Cons.prems(1) ne ns obtain st1 where
        s: "chain_header st line = Inr st1" "build_loop st1 f = Inr st'"
        by (auto split: sum.splits)
      from Cons.IH [OF s(2) chain_header_single_inv [OF s(1) Cons.prems(2)]]
      show ?thesis .
    next
      case False
      with Cons.prems(1) ne ns obtain st1 where
        s: "body_line st line = Inr st1" "build_loop st1 f = Inr st'"
        by (auto split: sum.splits)
      from Cons.IH [OF s(2) body_line_single_inv [OF s(1) Cons.prems(2)]]
      show ?thesis .
    qed
  qed
qed

lemma construct_single_pair:
  assumes "construct_from_chain_file f = Inr idx" "pair_heap idx = [pair]"
  shows "set_heap idx = [[0]]"
    and "map_of (seqnames idx) (seqname1 pair) = Some 0"
    and "map_of (seqnames idx) (seqname2 pair) = Some 0"
proof -
  from assms(1) obtain st' where
    b: "build_loop \<lparr>cidx = empty_index, cur = None\<rparr> f = Inr st'" and i: "idx = cidx st'"
    by (auto simp: construct_from_chain_file_def split: sum.splits)
  have "single_inv \<lparr>cidx = empty_index, cur = None\<rparr>"
    by (simp add: single_inv_def empty_index_def)
  from build_loop_single_inv [OF b this] i assms(2)
  show "set_heap idx = [[0]]"
    and "map_of (seqnames idx) (seqname1 pair) = Some 0"
    and "map_of (seqnames idx) (seqname2 pair) = Some 0"
    by (simp_all add: single_inv_def)
qed

lemma single_pair_candidates:
  assumes "set_heap idx = [[0]]" "pair_heap idx = [pair]" "iteration_order order"
  shows "candidates order idx 0 = [pair]"
  using assms iteration_order_single [OF assms(3), of 0] by (simp add: candidates_def)

lemma body_line_pair_count:
  assumes "body_line st line = Inr st'"
  shows "length (pair_heap (cidx st')) = length (pair_heap (cidx st))"
  using assms
  by (auto simp: body_line_def Let_def append_block_def
      split: sum.splits option.splits prod.splits)

lemma build_loop_pair_count:
  assumes "build_loop st f = Inr st'"
  shows "length (pair_heap (cidx st')) = length (pair_heap (cidx st)) + length (filter is_header f)"
  using assms
proof (induction f arbitrary: st)
  case Nil
  then show ?case by simp
next
  case (Cons line f)
  from Cons.prems have ne: "line \<noteq> []" by (auto split: if_splits)
  show ?case
  proof (cases "skipped line")
    case True
    with Cons ne show ?thesis by (simp add: is_header_def)
  next
    case ns: False
    show ?thesis
    proof (cases "startswith line ''chain''")
      case True
      with Cons.prems ne ns obtain st1 where
        s: "chain_header st line = Inr st1" "build_loop st1 f = Inr st'"
        by (auto split: sum.splits)
      from chain_header_pair_heap [OF s(1)]
      have "length (pair_heap (cidx st1)) = length (pair_heap (cidx st)) + 1" by auto
      with Cons.IH [OF s(2)] True ne ns show ?thesis by (simp add: is_header_def)
    next
      case False
      with Cons.prems ne ns obtain st1 where
        s: "body_line st line = Inr st1" "build_loop st1 f = Inr st'"
        by (auto split: sum.splits)
      from body_line_pair_count [OF s(1)] Cons.IH [OF s(2)] False
      show ?thesis by (simp add: is_header_def)
    qed
  qed
qed

lemma construct_pair_count:
  assumes "construct_from_chain_file f = Inr idx"
  shows "length (pair_heap idx) = length (filter is_header f)"
proof -
  from assms obtain st' where
    b: "build_loop \<lparr>cidx = empty_index, cur = None\<rparr> f = Inr st'" and i: "idx = cidx st'"
    by (auto simp: construct_from_chain_file_def split: sum.splits)
  from build_loop_pair_count [OF b] i show ?thesis by (simp add: empty_index_def)
qed

section \<open>The first header and the lines of the gap example\<close>

lemma py_rstrip_Nil: "py_rstrip s = [] \<longleftrightarrow> (\<forall>c\<in>set s. py_isspace c)"
  by (simp add: py_rstrip_def dropWhile_eq_Nil_conv)

lemma header_not_skipped:
  assumes "startswith hdr ''chain''"
  shows "hdr \<noteq> []" and "\<not> skipped hdr"
proof -
  from assms have "take (length ''chain'') hdr = ''chain''"
    by (simp only: startswith_def)
  then have "hdr = ''chain'' @ drop (length ''chain'') hdr"
    using append_take_drop_id [of "length ''chain''" hdr] by simp
  then obtain rest where h: "hdr = CHR ''c'' # rest" by simp
  then show "hdr \<noteq> []" by simp
  have "\<not> py_isspace CHR ''c''" by (simp add: py_isspace_def)
  with h have "py_rstrip hdr \<noteq> []" by (auto simp: py_rstrip_Nil)
  with h show "\<not> skipped hdr" by (simp add: skipped_def)
qed

lemma first_header:
  assumes "py_split hdr = items" "11 \<le> length items"
    and "py_int (items ! 5) = Some v1" "py_int (items ! 10) = Some v2"
  shows "chain_header \<lparr>cidx = empty_index, cur = None\<rparr> hdr =
           Inr \<lparr>cidx = \<lparr>seqnames = AList.update (items ! 7) 0 [(items ! 2, 0)],
                        set_heap = [[0]],
                        pair_heap = [\<lparr>seqname1 = items ! 2, seqname2 = items ! 7,
                                      strand1 = items ! 4, strand2 = items ! 9,
                                      blocks = []\<rparr>]\<rparr>,
                 cur = Some (0, v1, v2)\<rparr>"
  using assms
  by (simp add: chain_header_def getitem_def empty_index_def set_add_def Let_def)

lemma gap_body_lines:
  "body_fields ''50 10 20'' = Inr (PyStr ''50'', PyStr ''10'', PyStr ''20'')"
  "body_fields ''50'' = Inr (PyInt 50, PyInt 0, PyInt 0)"
  "py_int ''50'' = Some 50" "py_int ''10'' = Some 10" "py_int ''20'' = Some 20"
  "\<not> skipped ''50 10 20''" "\<not> skipped ''50''"
  "\<not> startswith ''50 10 20'' ''chain''" "\<not> startswith ''50'' ''chain''"
  by code_simp+

lemma gap_bisect:
  "bisect_left [\<lparr>s1 = 0, e1 = 50, s2 = 0, e2 = 50\<rparr>, \<lparr>s1 = 61, e1 = 111, s2 = 71, e2 = 121\<rparr>] 61 = 1"
  "bisect_left [\<lparr>s1 = 0, e1 = 50, s2 = 0, e2 = 50\<rparr>, \<lparr>s1 = 61, e1 = 111, s2 = 71, e2 = 121\<rparr>] 55 = 1"
  by code_simp+

section \<open>The claims\<close>

text \<open>
  C1 (code defect). The claim: liftover never fails, and for a position greater than the
  \<open>e1\<close> of every block of a candidate pair searched from its first sequence, that
  candidate contributes no result and the query goes on. The code: on the index of the
  end-to-end example, whose only block ends at 100, the query for \<open>chr1\<close> at 101 raises
  IndexError, since \<^verbatim>\<open>bisect_left\<close> returns the length of the block list and the list is
  indexed without the test that the second-sequence branch makes.
\<close>

theorem liftover_past_last_block_raises:
  "construct_from_chain_file example_chain = Inr example_index
   \<and> fst (liftover (\<lambda>ps. ps) example_index ''chr1'' 101) = Inl IndexError"
  by code_simp

text \<open>
  C2 (code defect). The claim: after the build every pair is a member of the set mapped
  from each of its two sequence names, also when a name has several partners. The code:
  with a chain chr1/chr2 followed by a chain chr3/chr2, the second header rebinds chr2 to
  the set of chr3, so the first pair (identifier 0, second name chr2) is no longer in the
  set that chr2 maps to, which holds the pair 1 only.
\<close>

theorem build_rebinds_second_name:
  "(case construct_from_chain_file
           [''chain 1 chr1 100 + 0 10 chr2 100 + 0 10 1'', ''10'',
            ''chain 1 chr3 100 + 0 10 chr2 100 + 0 10 2'', ''10''] of
      Inl e \<Rightarrow> False
    | Inr idx \<Rightarrow>
        map seqname1 (pair_heap idx) = [''chr1'', ''chr3'']
        \<and> map seqname2 (pair_heap idx) = [''chr2'', ''chr2'']
        \<and> pairs_of idx ''chr1'' = [0]
        \<and> pairs_of idx ''chr3'' = [1]
        \<and> pairs_of idx ''chr2'' = [1]
        \<and> 0 \<notin> set (pairs_of idx ''chr2''))"
  by code_simp

text \<open>
  C3 (corrected). The claim as stated, the round trip for every \<open>p\<close> with
  \<open>s1 \<le> p \<le> e1\<close>, fails at \<open>p = e1\<close>: on the index of the end-to-end example the query
  for chr1 at 100 returns (chr2, 100), and the query for chr2 at 100 returns no result,
  because \<^verbatim>\<open>bisect_right\<close> steps over the block whose \<open>e2\<close> equals the position.
\<close>

theorem roundtrip_at_block_end_counterexample:
  "construct_from_chain_file example_chain = Inr example_index
   \<and> fst (liftover (\<lambda>ps. ps) example_index ''chr1'' 100) = Inr (Some (''chr2'', 100))
   \<and> fst (liftover (\<lambda>ps. ps) example_index ''chr2'' 100) = Inr None"
  by code_simp

text \<open>
  C3, as amended. For a same-strand pair whose blocks keep the block invariants, any of
  its blocks \<open>b\<close> and any \<open>p\<close> with \<open>s1 b \<le> p \<le> e1 b\<close>: when the loop of liftover reaches
  the pair in the query from the first name at \<open>p\<close>, that query returns the second name
  with \<open>s2 b + (p - s1 b)\<close>. When moreover the two names differ, \<open>p < e1 b\<close>, the second
  name has an entry and the loop reaches the pair in the query from the second name at
  the returned position, that query returns the first name with \<open>p\<close>.
\<close>

theorem liftover_same_strand_roundtrip:
  assumes "map_of (seqnames idx) (seqname1 pair) = Some a"
    and "reaches (candidates order idx a) pair (seqname1 pair) p"
    and "strand1 pair = strand2 pair"
    and "good_blocks (blocks pair)" and "b \<in> set (blocks pair)"
    and "s1 b \<le> p" and "p \<le> e1 b"
  shows "fst (liftover order idx (seqname1 pair) p) = Inr (Some (seqname2 pair, s2 b + (p - s1 b)))
         \<and> (seqname1 pair \<noteq> seqname2 pair \<and> p < e1 b
              \<and> map_of (seqnames idx) (seqname2 pair) = Some a'
              \<and> reaches (candidates order idx a') pair (seqname2 pair) (s2 b + (p - s1 b))
            \<longrightarrow> fst (liftover order idx (seqname2 pair) (s2 b + (p - s1 b)))
                  = Inr (Some (seqname1 pair, p)))"
proof (intro conjI impI)
  show "fst (liftover order idx (seqname1 pair) p) = Inr (Some (seqname2 pair, s2 b + (p - s1 b)))"
    using liftover_reaches_role_A [OF assms(1,2,4,5,6,7)] assms(3) by simp
next
  assume h: "seqname1 pair \<noteq> seqname2 pair \<and> p < e1 b
              \<and> map_of (seqnames idx) (seqname2 pair) = Some a'
              \<and> reaches (candidates order idx a') pair (seqname2 pair) (s2 b + (p - s1 b))"
  then have ne: "seqname1 pair \<noteq> seqname2 pair" and lt: "p < e1 b"
    and reg: "map_of (seqnames idx) (seqname2 pair) = Some a'"
    and r: "reaches (candidates order idx a') pair (seqname2 pair) (s2 b + (p - s1 b))"
    by simp_all
  from assms(4,5) have eq: "e1 b - s1 b = e2 b - s2 b"
    by (simp add: good_blocks_def list_all_iff)
  have q: "s2 b \<le> s2 b + (p - s1 b)" "s2 b + (p - s1 b) < e2 b"
    using assms(6) lt eq by simp_all
  from liftover_reaches_role_B [OF reg r assms(4,5) q ne] assms(3)
  show "fst (liftover order idx (seqname2 pair) (s2 b + (p - s1 b))) = Inr (Some (seqname1 pair, p))"
    by simp
qed

text \<open>
  The witness applies the theorem twice: on the index of the end-to-end example, both
  ways at 50; and on the index of two chains chr1/chr2 and chr3/chr2, where the first
  pair is reached from chr1 only, for the way forward at 5.
\<close>

theorem liftover_same_strand_roundtrip_witness:
  "good_blocks [\<lparr>s1 = 0, e1 = 100, s2 = 0, e2 = 100\<rparr>]
   \<and> fst (liftover (\<lambda>ps. ps) example_index ''chr1'' 50) = Inr (Some (''chr2'', 50))
   \<and> fst (liftover (\<lambda>ps. ps) example_index ''chr2'' 50) = Inr (Some (''chr1'', 50))
   \<and> construct_from_chain_file
         [''chain 1 chr1 100 + 0 10 chr2 100 + 0 10 1'', ''10'',
          ''chain 1 chr3 100 + 0 10 chr2 100 + 0 10 2'', ''10'']
       = Inr \<lparr>seqnames = [(''chr1'', 0), (''chr2'', 1), (''chr3'', 1)], set_heap = [[0], [1]],
              pair_heap =
                [\<lparr>seqname1 = ''chr1'', seqname2 = ''chr2'', strand1 = ''+'', strand2 = ''+'',
                   blocks = [\<lparr>s1 = 0, e1 = 10, s2 = 0, e2 = 10\<rparr>]\<rparr>,
                 \<lparr>seqname1 = ''chr3'', seqname2 = ''chr2'', strand1 = ''+'', strand2 = ''+'',
                   blocks = [\<lparr>s1 = 0, e1 = 10, s2 = 0, e2 = 10\<rparr>]\<rparr>]\<rparr>
   \<and> fst (liftover (\<lambda>ps. ps)
            \<lparr>seqnames = [(''chr1'', 0), (''chr2'', 1), (''chr3'', 1)], set_heap = [[0], [1]],
             pair_heap =
               [\<lparr>seqname1 = ''chr1'', seqname2 = ''chr2'', strand1 = ''+'', strand2 = ''+'',
                  blocks = [\<lparr>s1 = 0, e1 = 10, s2 = 0, e2 = 10\<rparr>]\<rparr>,
                \<lparr>seqname1 = ''chr3'', seqname2 = ''chr2'', strand1 = ''+'', strand2 = ''+'',
                  blocks = [\<lparr>s1 = 0, e1 = 10, s2 = 0, e2 = 10\<rparr>]\<rparr>]\<rparr>
            ''chr1'' 5) = Inr (Some (''chr2'', 5))"
proof -
  let ?b = "\<lparr>s1 = 0, e1 = 100, s2 = 0, e2 = 100\<rparr>"
  let ?pair = "\<lparr>seqname1 = ''chr1'', seqname2 = ''chr2'', strand1 = ''+'', strand2 = ''+'',
               blocks = [?b]\<rparr>"
  have h1: "map_of (seqnames example_index) (seqname1 ?pair) = Some 0" by code_simp
  have h2: "reaches (candidates (\<lambda>ps. ps) example_index 0) ?pair (seqname1 ?pair) 50"
    by code_simp
  have h3: "strand1 ?pair = strand2 ?pair" by simp
  have h4: "good_blocks (blocks ?pair)" by code_simp
  have h5: "?b \<in> set (blocks ?pair)" by simp
  have h6: "s1 ?b \<le> 50" and h7: "50 \<le> e1 ?b" by simp_all
  have k1: "map_of (seqnames example_index) (seqname2 ?pair) = Some 0" by code_simp
  have k2: "reaches (candidates (\<lambda>ps. ps) example_index 0) ?pair (seqname2 ?pair)
              (s2 ?b + (50 - s1 ?b))"
    by code_simp
  from liftover_same_strand_roundtrip [OF h1 h2 h3 h4 h5 h6 h7, of 0] k1 k2
  have 1: "fst (liftover (\<lambda>ps. ps) example_index ''chr1'' 50) = Inr (Some (''chr2'', 50))"
    and 2: "fst (liftover (\<lambda>ps. ps) example_index ''chr2'' 50) = Inr (Some (''chr1'', 50))"
    by simp_all
  let ?c = "\<lparr>s1 = 0, e1 = 10, s2 = 0, e2 = 10\<rparr>"
  let ?p0 = "\<lparr>seqname1 = ''chr1'', seqname2 = ''chr2'', strand1 = ''+'', strand2 = ''+'',
             blocks = [?c]\<rparr>"
  let ?p1 = "\<lparr>seqname1 = ''chr3'', seqname2 = ''chr2'', strand1 = ''+'', strand2 = ''+'',
             blocks = [?c]\<rparr>"
  let ?idx = "\<lparr>seqnames = [(''chr1'', 0), (''chr2'', 1), (''chr3'', 1)], set_heap = [[0], [1]],
              pair_heap = [?p0, ?p1]\<rparr>"
  have b: "construct_from_chain_file
             [''chain 1 chr1 100 + 0 10 chr2 100 + 0 10 1'', ''10'',
              ''chain 1 chr3 100 + 0 10 chr2 100 + 0 10 2'', ''10''] = Inr ?idx"
    by code_simp
  have g1: "map_of (seqnames ?idx) (seqname1 ?p0) = Some 0" by simp
  have g2: "reaches (candidates (\<lambda>ps. ps) ?idx 0) ?p0 (seqname1 ?p0) 5"
    by (simp add: candidates_def)
  have g3: "strand1 ?p0 = strand2 ?p0" by simp
  have g4: "good_blocks (blocks ?p0)" by code_simp
  have g5: "?c \<in> set (blocks ?p0)" by simp
  have g6: "s1 ?c \<le> 5" and g7: "5 \<le> e1 ?c" by simp_all
  from liftover_same_strand_roundtrip [OF g1 g2 g3 g4 g5 g6 g7, of 0]
  have 3: "fst (liftover (\<lambda>ps. ps) ?idx ''chr1'' 5) = Inr (Some (''chr2'', 5))"
    by simp
  from h4 have 0: "good_blocks [?b]" by simp
  show ?thesis by (intro conjI 0 1 2 b 3)
qed

text \<open>
  C4 (corrected). The claim as stated, that liftover leaves the index unchanged and that
  a query for a name without an entry does not modify the mapping, fails: the dictionary
  is a \<^verbatim>\<open>defaultdict(set)\<close> and liftover reads it with \<^verbatim>\<open>self.seqnames[seqname]\<close>, so the
  query for chrX on the index of the end-to-end example returns no result and leaves a
  third entry, chrX, with a new empty set.
\<close>

theorem liftover_unknown_name_counterexample:
  "construct_from_chain_file example_chain = Inr example_index
   \<and> fst (liftover (\<lambda>ps. ps) example_index ''chrX'' 7) = Inr None
   \<and> snd (liftover (\<lambda>ps. ps) example_index ''chrX'' 7) \<noteq> example_index
   \<and> seqnames (snd (liftover (\<lambda>ps. ps) example_index ''chrX'' 7))
       = [(''chr1'', 0), (''chr2'', 0), (''chrX'', 1)]
   \<and> set_heap (snd (liftover (\<lambda>ps. ps) example_index ''chrX'' 7)) = [[0], []]"
  by code_simp

text \<open>
  C4, as amended. On an index whose entries point to existing sets, liftover never
  changes the SeqPair objects nor the members of the set that any name maps to (none for
  a name without an entry); a query for a name that has an entry leaves the index
  unchanged; a query for a name without an entry returns no result and adds an entry for
  that name, with a new empty set.
\<close>

theorem liftover_frame:
  assumes "wf_index idx" and "iteration_order order"
  shows "pair_heap (snd (liftover order idx name pos)) = pair_heap idx
         \<and> (\<forall>n. pairs_of (snd (liftover order idx name pos)) n = pairs_of idx n)
         \<and> (map_of (seqnames idx) name \<noteq> None \<longrightarrow> snd (liftover order idx name pos) = idx)
         \<and> (map_of (seqnames idx) name = None \<longrightarrow>
              liftover order idx name pos =
                (Inr None, idx\<lparr>seqnames := seqnames idx @ [(name, length (set_heap idx))],
                               set_heap := set_heap idx @ [[]]\<rparr>))"
proof -
  have s: "snd (liftover order idx name pos) = snd (getitem idx name)"
    by (simp add: liftover_def split: prod.splits)
  have 1: "pair_heap (snd (liftover order idx name pos)) = pair_heap idx"
    by (simp add: s getitem_pair_heap)
  have 2: "\<forall>n. pairs_of (snd (liftover order idx name pos)) n = pairs_of idx n"
    by (simp add: s getitem_pairs_of [OF assms(1)])
  have 3: "map_of (seqnames idx) name \<noteq> None \<longrightarrow> snd (liftover order idx name pos) = idx"
    by (auto simp: s getitem_def)
  from 1 2 3 liftover_unregistered [OF _ assms(2)] show ?thesis by blast
qed

theorem liftover_frame_witness:
  "wf_index example_index \<and> iteration_order (\<lambda>ps. ps)
   \<and> pairs_of (snd (liftover (\<lambda>ps. ps) example_index ''chrX'' 7)) ''chr2''
       = pairs_of example_index ''chr2''
   \<and> pairs_of (snd (liftover (\<lambda>ps. ps) example_index ''chrX'' 7)) ''chrX'' = []
   \<and> snd (liftover (\<lambda>ps. ps) example_index ''chr1'' 7) = example_index"
proof -
  have h1: "wf_index example_index" by code_simp
  have h2: "iteration_order (\<lambda>ps. ps)" by (simp add: iteration_order_def)
  have r: "map_of (seqnames example_index) ''chr1'' \<noteq> None" by code_simp
  have e: "pairs_of example_index ''chrX'' = []" by code_simp
  from liftover_frame [OF h1 h2, of "''chrX''" 7] liftover_frame [OF h1 h2, of "''chr1''" 7] h1 h2 r e
  show ?thesis by simp
qed

text \<open>
  C5. An input of ASCII lines with a malformed line (a header line with fewer than eleven
  tokens or without integers at positions 5 and 10, or a body line that is neither one
  integer nor three) makes the build fail: the result is an error (the ValueError,
  IndexError or UnboundLocalError that Python raises) and no index is returned.
\<close>

theorem build_fails_on_malformed_line:
  assumes "ascii_input f" and "\<exists>line\<in>set f. malformed line"
  shows "\<exists>e. construct_from_chain_file f = Inl e"
  using build_loop_malformed [OF assms(2), of "\<lparr>cidx = empty_index, cur = None\<rparr>"]
  by (auto simp: construct_from_chain_file_def)

theorem build_fails_on_malformed_line_witness:
  "ascii_input [''chain 100 chr1 1000 + 0 100 chr2 1000 + 0 100 1'', ''50 10'']
   \<and> ascii_input [''chain 100 chr1 1000 + 0 100 chr2'', ''100'']
   \<and> malformed ''50 10'' \<and> malformed ''chain 100 chr1 1000 + 0 100 chr2''
   \<and> (\<exists>e. construct_from_chain_file
              [''chain 100 chr1 1000 + 0 100 chr2 1000 + 0 100 1'', ''50 10''] = Inl e)
   \<and> (\<exists>e. construct_from_chain_file [''chain 100 chr1 1000 + 0 100 chr2'', ''100''] = Inl e)"
proof -
  have a1: "ascii_input [''chain 100 chr1 1000 + 0 100 chr2 1000 + 0 100 1'', ''50 10'']"
    and a2: "ascii_input [''chain 100 chr1 1000 + 0 100 chr2'', ''100'']"
    by code_simp+
  have m1: "malformed ''50 10''" and m2: "malformed ''chain 100 chr1 1000 + 0 100 chr2''"
    by code_simp+
  from m1 have h1: "\<exists>line\<in>set [''chain 100 chr1 1000 + 0 100 chr2 1000 + 0 100 1'', ''50 10''].
                  malformed line"
    by simp
  from m2 have h2: "\<exists>line\<in>set [''chain 100 chr1 1000 + 0 100 chr2'', ''100'']. malformed line"
    by simp
  show ?thesis
    by (intro conjI a1 a2 m1 m2 build_fails_on_malformed_line [OF a1 h1]
        build_fails_on_malformed_line [OF a2 h2])
qed

text \<open>
  C6 (corrected). The claim as stated speaks of any chain whose header has both starts
  at 0. For a header with different strands the blocks are the ones claimed, but the
  query for chr1 at 61 returns (chr2, 120), by the cross-strand transform
  \<open>s2 + (e1 - 1 - pos) = 71 + (111 - 1 - 61)\<close>, not (chr2, 71).
\<close>

theorem gap_example_cross_strand_counterexample:
  "(case construct_from_chain_file
           [''chain 100 chr1 1000 + 0 111 chr2 1000 - 0 121 1'', ''50 10 20'', ''50''] of
      Inl e \<Rightarrow> False
    | Inr idx \<Rightarrow>
        map blocks (pair_heap idx)
          = [[\<lparr>s1 = 0, e1 = 50, s2 = 0, e2 = 50\<rparr>, \<lparr>s1 = 61, e1 = 111, s2 = 71, e2 = 121\<rparr>]]
        \<and> fst (liftover (\<lambda>ps. ps) idx ''chr1'' 61) = Inr (Some (''chr2'', 120)))"
  by code_simp

text \<open>
  C6, as amended. For every ASCII header line with eleven tokens or more, both starts 0
  and the same strand on both sides, followed by the body lines \<open>50 10 20\<close> and \<open>50\<close>: the
  build succeeds with one pair holding exactly the blocks (0, 50, 0, 50) and
  (61, 111, 71, 121); the query from the first name at 61 returns the second name with
  71, and the query from the first name at 55 returns no result.
\<close>

theorem gap_example:
  assumes "ascii_line hdr"
    and "startswith hdr ''chain''" and "py_split hdr = items" and "11 \<le> length items"
    and "py_int (items ! 5) = Some 0" and "py_int (items ! 10) = Some 0"
    and "items ! 4 = items ! 9" and "iteration_order order"
  shows "\<exists>idx. construct_from_chain_file [hdr, ''50 10 20'', ''50''] = Inr idx
           \<and> map blocks (pair_heap idx)
               = [[\<lparr>s1 = 0, e1 = 50, s2 = 0, e2 = 50\<rparr>, \<lparr>s1 = 61, e1 = 111, s2 = 71, e2 = 121\<rparr>]]
           \<and> fst (liftover order idx (items ! 2) 61) = Inr (Some (items ! 7, 71))
           \<and> fst (liftover order idx (items ! 2) 55) = Inr None"
proof -
  let ?bs = "[\<lparr>s1 = 0, e1 = 50, s2 = 0, e2 = 50\<rparr>, \<lparr>s1 = 61, e1 = 111, s2 = 71, e2 = 121\<rparr>]"
  let ?pair = "\<lparr>seqname1 = items ! 2, seqname2 = items ! 7,
                strand1 = items ! 4, strand2 = items ! 9, blocks = ?bs\<rparr>"
  let ?idx = "\<lparr>seqnames = AList.update (items ! 7) 0 [(items ! 2, 0)],
               set_heap = [[0]], pair_heap = [?pair]\<rparr>"
  note hs = header_not_skipped [OF assms(2)]
  have b: "construct_from_chain_file [hdr, ''50 10 20'', ''50''] = Inr ?idx"
    using assms(2) hs
    by (simp add: construct_from_chain_file_def first_header [OF assms(3-6)]
        body_line_def gap_body_lines append_block_def)
  have r: "map_of (seqnames ?idx) (items ! 2) = Some 0"
    by (simp add: update_conv')
  have c: "candidates order ?idx 0 = [?pair]"
    using iteration_order_single [OF assms(8), of 0] by (simp add: candidates_def)
  have l1: "liftover_pairs [?pair] (items ! 2) 61 = Inr (Some (items ! 7, 71))"
    using assms(7) by (simp add: gap_bisect Let_def)
  have l2: "liftover_pairs [?pair] (items ! 2) 55 = Inr None"
    by (simp add: gap_bisect Let_def)
  have m: "map blocks (pair_heap ?idx) = [?bs]" by simp
  have g1: "fst (liftover order ?idx (items ! 2) 61) = Inr (Some (items ! 7, 71))"
    by (simp only: liftover_registered [OF r] c l1 fst_conv)
  have g2: "fst (liftover order ?idx (items ! 2) 55) = Inr None"
    by (simp only: liftover_registered [OF r] c l2 fst_conv)
  show ?thesis by (intro exI [of _ ?idx] conjI b m g1 g2)
qed

theorem gap_example_witness:
  "ascii_line ''chain 100 chr1 1000 + 0 111 chr2 1000 + 0 121 1''
   \<and> startswith ''chain 100 chr1 1000 + 0 111 chr2 1000 + 0 121 1'' ''chain''
   \<and> iteration_order (\<lambda>ps. ps)
   \<and> (\<exists>idx. construct_from_chain_file
               [''chain 100 chr1 1000 + 0 111 chr2 1000 + 0 121 1'', ''50 10 20'', ''50'']
                = Inr idx
           \<and> map blocks (pair_heap idx)
               = [[\<lparr>s1 = 0, e1 = 50, s2 = 0, e2 = 50\<rparr>, \<lparr>s1 = 61, e1 = 111, s2 = 71, e2 = 121\<rparr>]]
           \<and> fst (liftover (\<lambda>ps. ps) idx ''chr1'' 61) = Inr (Some (''chr2'', 71))
           \<and> fst (liftover (\<lambda>ps. ps) idx ''chr1'' 55) = Inr None)"
proof -
  let ?hdr = "''chain 100 chr1 1000 + 0 111 chr2 1000 + 0 121 1''"
  let ?items = "[''chain'', ''100'', ''chr1'', ''1000'', ''+'', ''0'', ''111'',
                 ''chr2'', ''1000'', ''+'', ''0'', ''121'', ''1'']"
  have h0: "ascii_line ?hdr" by code_simp
  have h1: "startswith ?hdr ''chain''" by code_simp
  have h2: "py_split ?hdr = ?items" by code_simp
  have h3: "11 \<le> length ?items" by simp
  have h4: "py_int (?items ! 5) = Some 0" by code_simp
  have h5: "py_int (?items ! 10) = Some 0" by code_simp
  have h6: "?items ! 4 = ?items ! 9" by simp
  have h7: "iteration_order (\<lambda>ps. ps)" by (simp add: iteration_order_def)
  from gap_example [OF h0 h1 h2 h3 h4 h5 h6 h7] h0 h1 h7 show ?thesis by simp
qed

text \<open>
  C7. Parsing the two lines of the end-to-end example yields the index with the single
  block (0, 100, 0, 100); on it, whatever the order in which the set is visited, the query
  for chr1 at 50 returns (chr2, 50) and the query for chr2 at 50 returns (chr1, 50).
\<close>

theorem end_to_end_example:
  assumes "iteration_order order"
  shows "construct_from_chain_file
           [''chain 100 chr1 1000 + 0 100 chr2 1000 + 0 100 1'', ''100''] = Inr example_index
         \<and> map blocks (pair_heap example_index) = [[\<lparr>s1 = 0, e1 = 100, s2 = 0, e2 = 100\<rparr>]]
         \<and> fst (liftover order example_index ''chr1'' 50) = Inr (Some (''chr2'', 50))
         \<and> fst (liftover order example_index ''chr2'' 50) = Inr (Some (''chr1'', 50))"
proof -
  have b: "construct_from_chain_file
             [''chain 100 chr1 1000 + 0 100 chr2 1000 + 0 100 1'', ''100''] = Inr example_index"
    by code_simp
  have m: "map blocks (pair_heap example_index) = [[\<lparr>s1 = 0, e1 = 100, s2 = 0, e2 = 100\<rparr>]]"
    by (simp add: example_index_def)
  have c: "candidates order example_index 0 = pair_heap example_index"
    using iteration_order_single [OF assms, of 0]
    by (simp add: candidates_def example_index_def)
  have r1: "map_of (seqnames example_index) ''chr1'' = Some 0"
    and r2: "map_of (seqnames example_index) ''chr2'' = Some 0"
    by (simp_all add: example_index_def)
  have l1: "liftover_pairs (pair_heap example_index) ''chr1'' 50 = Inr (Some (''chr2'', 50))"
    by code_simp
  have l2: "liftover_pairs (pair_heap example_index) ''chr2'' 50 = Inr (Some (''chr1'', 50))"
    by code_simp
  from b m show ?thesis
    by (simp add: liftover_registered [OF r1] liftover_registered [OF r2] c l1 l2)
qed

theorem end_to_end_example_witness:
  "iteration_order (\<lambda>ps. ps)
   \<and> fst (liftover (\<lambda>ps. ps) example_index ''chr1'' 50) = Inr (Some (''chr2'', 50))
   \<and> fst (liftover (\<lambda>ps. ps) example_index ''chr2'' 50) = Inr (Some (''chr1'', 50))"
proof -
  have h: "iteration_order (\<lambda>ps. ps)" by (simp add: iteration_order_def)
  from end_to_end_example [OF h] h show ?thesis by simp
qed

text \<open>
  C8. When the fields of every body line are non-negative integers and the build
  succeeds, every block of every pair has \<open>e1 - s1 = e2 - s2\<close>, and the blocks of a pair,
  in the order they were appended, have strictly increasing \<open>s1\<close> and \<open>e1\<close>, each block
  ending before the next one starts in the first genome (\<open>e1 b < s1 b'\<close>) and in the second
  (\<open>e2 b < s2 b'\<close>).
\<close>

theorem parser_block_invariants:
  assumes "construct_from_chain_file f = Inr idx"
    and "\<forall>line\<in>set f. is_body line \<longrightarrow> nonneg_fields line"
  shows "\<forall>pair\<in>set (pair_heap idx).
           (\<forall>b\<in>set (blocks pair). e1 b - s1 b = e2 b - s2 b)
           \<and> sorted_wrt (\<lambda>b b'. s1 b < s1 b' \<and> e1 b < e1 b' \<and> e1 b < s1 b' \<and> e2 b < s2 b') (blocks pair)"
proof
  fix pair assume "pair \<in> set (pair_heap idx)"
  with construct_good_blocks [OF assms] have g: "good_blocks (blocks pair)"
    by (simp add: list_all_iff)
  then have "\<forall>b\<in>set (blocks pair). e1 b - s1 b = e2 b - s2 b"
    by (simp add: good_blocks_def list_all_iff)
  with good_blocks_increasing [OF g]
  show "(\<forall>b\<in>set (blocks pair). e1 b - s1 b = e2 b - s2 b)
           \<and> sorted_wrt (\<lambda>b b'. s1 b < s1 b' \<and> e1 b < e1 b' \<and> e1 b < s1 b' \<and> e2 b < s2 b') (blocks pair)"
    by simp
qed

theorem parser_block_invariants_witness:
  "nonneg_fields ''50 10 20'' \<and> nonneg_fields ''50''
   \<and> construct_from_chain_file
         [''chain 100 chr1 1000 + 0 111 chr2 1000 + 0 121 1'', ''50 10 20'', ''50'']
       = Inr \<lparr>seqnames = [(''chr1'', 0), (''chr2'', 0)], set_heap = [[0]],
              pair_heap = [\<lparr>seqname1 = ''chr1'', seqname2 = ''chr2'', strand1 = ''+'',
                            strand2 = ''+'',
                            blocks = [\<lparr>s1 = 0, e1 = 50, s2 = 0, e2 = 50\<rparr>,
                                      \<lparr>s1 = 61, e1 = 111, s2 = 71, e2 = 121\<rparr>]\<rparr>]\<rparr>
   \<and> sorted_wrt (\<lambda>b b'. s1 b < s1 b' \<and> e1 b < e1 b' \<and> e1 b < s1 b' \<and> e2 b < s2 b')
        [\<lparr>s1 = 0, e1 = 50, s2 = 0, e2 = 50\<rparr>, \<lparr>s1 = 61, e1 = 111, s2 = 71, e2 = 121\<rparr>]"
proof -
  let ?f = "[''chain 100 chr1 1000 + 0 111 chr2 1000 + 0 121 1'', ''50 10 20'', ''50'']"
  let ?bs = "[\<lparr>s1 = 0, e1 = 50, s2 = 0, e2 = 50\<rparr>, \<lparr>s1 = 61, e1 = 111, s2 = 71, e2 = 121\<rparr>]"
  let ?idx = "\<lparr>seqnames = [(''chr1'', 0), (''chr2'', 0)], set_heap = [[0]],
               pair_heap = [\<lparr>seqname1 = ''chr1'', seqname2 = ''chr2'', strand1 = ''+'',
                             strand2 = ''+'', blocks = ?bs\<rparr>]\<rparr>"
  have h1: "construct_from_chain_file ?f = Inr ?idx" by code_simp
  have n: "nonneg_fields ''50 10 20''" "nonneg_fields ''50''" by code_simp+
  have h2: "\<forall>line\<in>set ?f. is_body line \<longrightarrow> nonneg_fields line"
    by code_simp
  from parser_block_invariants [OF h1 h2]
  have "sorted_wrt (\<lambda>b b'. s1 b < s1 b' \<and> e1 b < e1 b' \<and> e1 b < s1 b' \<and> e2 b < s2 b') ?bs" by simp
  with n h1 show ?thesis by (intro conjI)
qed

text \<open>
  C9 (corrected). The claim as stated promises the result of every cross-strand pair
  that covers the position. With two cross-strand chains from chr1 that both cover
  position 5, one to chr2 and one to chr3, the query returns the result of the pair
  visited first: (chr2, 4) in one visiting order and (chr3, 4) in the other, so in
  either order one of the two pairs does not get the result the claim states for it.
\<close>

theorem first_covering_pair_wins_counterexample:
  "(case construct_from_chain_file
           [''chain 1 chr1 100 + 0 10 chr2 100 - 0 10 1'', ''10'',
            ''chain 1 chr1 100 + 0 10 chr3 100 - 0 10 2'', ''10''] of
      Inl e \<Rightarrow> False
    | Inr idx \<Rightarrow>
        map seqname2 (pair_heap idx) = [''chr2'', ''chr3'']
        \<and> map blocks (pair_heap idx)
            = [[\<lparr>s1 = 0, e1 = 10, s2 = 0, e2 = 10\<rparr>], [\<lparr>s1 = 0, e1 = 10, s2 = 0, e2 = 10\<rparr>]]
        \<and> pairs_of idx ''chr1'' = [0, 1]
        \<and> fst (liftover (\<lambda>ps. ps) idx ''chr1'' 5) = Inr (Some (''chr2'', 4))
        \<and> fst (liftover rev idx ''chr1'' 5) = Inr (Some (''chr3'', 4)))"
  by code_simp

text \<open>
  C9, as amended. For a cross-strand pair whose blocks keep the block invariants, any of
  its blocks \<open>b\<close> and any \<open>p\<close> with \<open>s1 b \<le> p \<le> e1 b\<close>: when the loop of liftover reaches
  the pair, the query from the first name at \<open>p\<close> returns the second name with
  \<open>s2 b + (e1 b - 1 - p)\<close>, which equals \<open>e2 b - 1 - (p - s1 b)\<close>, and the inverse transform
  \<open>q \<mapsto> s1 b + (e2 b - 1 - q)\<close> of the returned position is \<open>p\<close>.
\<close>

theorem liftover_cross_strand:
  assumes "map_of (seqnames idx) (seqname1 pair) = Some a"
    and "reaches (candidates order idx a) pair (seqname1 pair) p"
    and "strand1 pair \<noteq> strand2 pair"
    and "good_blocks (blocks pair)" and "b \<in> set (blocks pair)"
    and "s1 b \<le> p" and "p \<le> e1 b"
  shows "fst (liftover order idx (seqname1 pair) p)
           = Inr (Some (seqname2 pair, s2 b + (e1 b - 1 - p)))
         \<and> s2 b + (e1 b - 1 - p) = e2 b - 1 - (p - s1 b)
         \<and> s1 b + (e2 b - 1 - (s2 b + (e1 b - 1 - p))) = p"
proof -
  from assms(4,5) have eq: "e1 b - s1 b = e2 b - s2 b"
    by (simp add: good_blocks_def list_all_iff)
  from liftover_reaches_role_A [OF assms(1,2,4,5,6,7)] assms(3) eq
  show ?thesis by simp
qed

theorem liftover_cross_strand_witness:
  "good_blocks [\<lparr>s1 = 0, e1 = 10, s2 = 20, e2 = 30\<rparr>]
   \<and> fst (liftover (\<lambda>ps. ps)
            \<lparr>seqnames = [(''chr1'', 0), (''chr2'', 0)], set_heap = [[0]],
             pair_heap = [\<lparr>seqname1 = ''chr1'', seqname2 = ''chr2'', strand1 = ''+'',
                           strand2 = ''-'',
                           blocks = [\<lparr>s1 = 0, e1 = 10, s2 = 20, e2 = 30\<rparr>]\<rparr>]\<rparr>
            ''chr1'' 3) = Inr (Some (''chr2'', 26))"
proof -
  let ?b = "\<lparr>s1 = 0, e1 = 10, s2 = 20, e2 = 30\<rparr>"
  let ?pair = "\<lparr>seqname1 = ''chr1'', seqname2 = ''chr2'', strand1 = ''+'', strand2 = ''-'',
               blocks = [?b]\<rparr>"
  let ?idx = "\<lparr>seqnames = [(''chr1'', 0), (''chr2'', 0)], set_heap = [[0]],
               pair_heap = [?pair]\<rparr>"
  have h1: "map_of (seqnames ?idx) (seqname1 ?pair) = Some 0" by simp
  have h2: "reaches (candidates (\<lambda>ps. ps) ?idx 0) ?pair (seqname1 ?pair) 3"
    by (simp add: candidates_def)
  have h3: "strand1 ?pair \<noteq> strand2 ?pair" by simp
  have h4: "good_blocks (blocks ?pair)" by code_simp
  have h5: "?b \<in> set (blocks ?pair)" by simp
  have h6: "s1 ?b \<le> 3" and h7: "3 \<le> e1 ?b" by simp_all
  from liftover_cross_strand [OF h1 h2 h3 h4 h5 h6 h7] h4
  show ?thesis by simp
qed

text \<open>
  C10 (corrected). The claim as stated fails for a chain of a sequence with itself: the
  second name is then the first name too, the query is searched in the first genome, and
  with the block (5, 15, 0, 10) the query for chr1 at \<open>e2 = 10\<close> returns (chr1, 5).
\<close>

theorem self_chain_at_e2_counterexample:
  "(case construct_from_chain_file [''chain 1 chr1 100 + 5 15 chr1 100 + 0 10 1'', ''10''] of
      Inl e \<Rightarrow> False
    | Inr idx \<Rightarrow>
        map seqname1 (pair_heap idx) = [''chr1'']
        \<and> map seqname2 (pair_heap idx) = [''chr1'']
        \<and> map blocks (pair_heap idx) = [[\<lparr>s1 = 5, e1 = 15, s2 = 0, e2 = 10\<rparr>]]
        \<and> fst (liftover (\<lambda>ps. ps) idx ''chr1'' 10) = Inr (Some (''chr1'', 5)))"
  by code_simp

text \<open>
  C10, as amended. For an index built from an input with one header line, whose body
  lines have non-negative fields and whose two sequence names differ, and for every block
  of the pair, the query from the second name at the block's \<open>e2\<close> returns no result,
  whatever the order in which the set is visited.
\<close>

theorem liftover_second_name_at_e2:
  assumes "construct_from_chain_file f = Inr idx" and "length (filter is_header f) = 1"
    and "\<forall>line\<in>set f. is_body line \<longrightarrow> nonneg_fields line"
    and "pair \<in> set (pair_heap idx)"
    and "seqname1 pair \<noteq> seqname2 pair" and "b \<in> set (blocks pair)"
    and "iteration_order order"
  shows "fst (liftover order idx (seqname2 pair) (e2 b)) = Inr None"
proof -
  from construct_pair_count [OF assms(1)] assms(2) have "length (pair_heap idx) = 1"
    by simp
  with assms(4) have ph: "pair_heap idx = [pair]"
    by (cases "pair_heap idx") auto
  from construct_good_blocks [OF assms(1,3)] ph have g: "good_blocks (blocks pair)"
    by simp
  from assms(6) obtain k where k: "k < length (blocks pair)" "blocks pair ! k = b"
    by (auto simp: in_set_conv_nth)
  note sp = construct_single_pair [OF assms(1) ph]
  have "liftover_pairs [pair] (seqname2 pair) (e2 b) = Inr None"
    using liftover_pairs_role_B_end [OF g k(1) assms(5), of "[]"] k(2) by simp
  then show ?thesis
    by (simp add: liftover_registered [OF sp(3)]
        single_pair_candidates [OF sp(1) ph assms(7)])
qed

theorem liftover_second_name_at_e2_witness:
  "construct_from_chain_file example_chain = Inr example_index
   \<and> length (filter is_header example_chain) = 1
   \<and> iteration_order (\<lambda>ps. ps)
   \<and> fst (liftover (\<lambda>ps. ps) example_index ''chr2'' 100) = Inr None"
proof -
  let ?b = "\<lparr>s1 = 0, e1 = 100, s2 = 0, e2 = 100\<rparr>"
  let ?pair = "\<lparr>seqname1 = ''chr1'', seqname2 = ''chr2'', strand1 = ''+'', strand2 = ''+'',
               blocks = [?b]\<rparr>"
  have h1: "construct_from_chain_file example_chain = Inr example_index" by code_simp
  have h2: "length (filter is_header example_chain) = 1" by code_simp
  have h3: "\<forall>line\<in>set example_chain. is_body line \<longrightarrow> nonneg_fields line" by code_simp
  have h4: "?pair \<in> set (pair_heap example_index)" by (simp add: example_index_def)
  have h5: "seqname1 ?pair \<noteq> seqname2 ?pair" by simp
  have h6: "?b \<in> set (blocks ?pair)" by simp
  have h7: "iteration_order (\<lambda>ps. ps)" by (simp add: iteration_order_def)
  from liftover_second_name_at_e2 [OF h1 h2 h3 h4 h5 h6 h7]
  have "fst (liftover (\<lambda>ps. ps) example_index ''chr2'' 100) = Inr None" by simp
  with h1 h2 h7 show ?thesis by (intro conjI)
qed

end
